theory Spec2Isabelle
  imports Main "HOL-Library.Word"
begin

unbundle bit_operations_syntax

section \<open>Anchor construction of nanopolish (nanopolish\_anchor.cpp)\<close>

text \<open>
  The embedding follows \<^verbatim>\<open>src/nanopolish_anchor.cpp\<close>. C \<^verbatim>\<open>int\<close> values are
  integers of HOL; where the source computes with them in a way that is undefined in C
  when the result leaves the 32-bit range (the subtraction \<^verbatim>\<open>end - start\<close>, the cursor
  increments), the model returns the error \<open>IntegerOverflow\<close>. Conversions to the
  unsigned types of the source (\<^verbatim>\<open>uint32_t\<close>, \<^verbatim>\<open>size_t\<close>) are written out. Every
  \<^verbatim>\<open>assert\<close>, every exception of the standard library and every access the source makes
  without a bounds check is a branch that returns an error.
\<close>

subsection \<open>Errors\<close>

datatype error =
    DivisionByZero
  | IntegerOverflow
  | UnhandledCigarOperation nat
  | AnchorIdAssertion
  | NoEventAssertion
  | SubstrOutOfRange
  | NoReadsAssertion
  | AnchorCountAssertion
  | ColumnAnchorAssertion
  | BaseSequenceOutOfRange
  | BaseSequenceAssertion
  | ReadSubstringsOutOfRange

subsection \<open>C arithmetic\<close>

text \<open>Division and remainder of C truncate towards zero.\<close>

definition c_div :: "int \<Rightarrow> int \<Rightarrow> int" where
  "c_div a b = (if (a < 0) = (b < 0) then \<bar>a\<bar> div \<bar>b\<bar> else - (\<bar>a\<bar> div \<bar>b\<bar>))"

definition c_mod :: "int \<Rightarrow> int \<Rightarrow> int" where
  "c_mod a b = a - b * c_div a b"

text \<open>The values of a C \<^verbatim>\<open>int\<close> (32 bits).\<close>

definition int_ok :: "int \<Rightarrow> bool" where
  "int_ok x \<longleftrightarrow> - (2 ^ 31) \<le> x \<and> x < 2 ^ 31"

text \<open>Conversion of an \<^verbatim>\<open>int\<close> to \<^verbatim>\<open>uint32_t\<close>.\<close>

definition uint32_of_int :: "int \<Rightarrow> nat" where
  "uint32_of_int x = nat (x mod 2 ^ 32)"

subsection \<open>Alignment records\<close>

text \<open>
  The fields of htslib's \<^verbatim>\<open>bam1_t\<close> that the source reads: the query name, the leftmost
  reference position \<^verbatim>\<open>core.pos\<close>, the reverse flag read by \<^verbatim>\<open>bam_is_rev\<close>, and the
  edit operations, one 32-bit word each (\<^verbatim>\<open>core.n_cigar\<close> is the length of the list).
\<close>

record bam1_t =
  qname :: string
  pos :: int
  is_rev :: bool
  cigar :: "32 word list"

text \<open>
  Modelled from the spec: the operation codes are macros of htslib (\<^verbatim>\<open>sam.h\<close>), which is
  not among the sources. The spec names the operation classes (aligned match or mismatch,
  deletion or reference skip, insertion, soft clip, hard clip); the numbers are those the
  BAM format gives them.
\<close>

definition BAM_CMATCH :: nat where "BAM_CMATCH = 0"
definition BAM_CINS :: nat where "BAM_CINS = 1"
definition BAM_CDEL :: nat where "BAM_CDEL = 2"
definition BAM_CREF_SKIP :: nat where "BAM_CREF_SKIP = 3"
definition BAM_CSOFT_CLIP :: nat where "BAM_CSOFT_CLIP = 4"
definition BAM_CHARD_CLIP :: nat where "BAM_CHARD_CLIP = 5"
definition BAM_CEQUAL :: nat where "BAM_CEQUAL = 7"
definition BAM_CDIFF :: nat where "BAM_CDIFF = 8"

lemmas BAM_defs = BAM_CMATCH_def BAM_CINS_def BAM_CDEL_def BAM_CREF_SKIP_def
  BAM_CSOFT_CLIP_def BAM_CHARD_CLIP_def BAM_CEQUAL_def BAM_CDIFF_def

text \<open>\<^verbatim>\<open>cigar[ci] >> 4\<close> and \<^verbatim>\<open>cigar[ci] & 0xf\<close>.\<close>

definition cigar_len :: "32 word \<Rightarrow> nat" where
  "cigar_len c = unat (drop_bit 4 c)"

definition cigar_op :: "32 word \<Rightarrow> nat" where
  "cigar_op c = unat (c AND 0xf)"

text \<open>
  The increments \<open>(read_inc, ref_inc)\<close> of an operation; an operation outside the four
  branches fails the assertion "Unhandled cigar operation".
\<close>

definition cigar_incs :: "nat \<Rightarrow> error + (int \<times> int)" where
  "cigar_incs op =
     (if op = BAM_CMATCH \<or> op = BAM_CEQUAL \<or> op = BAM_CDIFF then Inr (1, 1)
      else if op = BAM_CDEL \<or> op = BAM_CREF_SKIP then Inr (0, 1)
      else if op = BAM_CINS \<or> op = BAM_CSOFT_CLIP then Inr (1, 0)
      else if op = BAM_CHARD_CLIP then Inr (1, 0)
      else Inl (UnhandledCigarOperation op))"

subsection \<open>The walk over the edit operations\<close>

text \<open>The variables of \<^verbatim>\<open>match_read_to_reference_anchors\<close> that change during the walk.\<close>

record walk =
  out :: "int list"
  read_pos :: int
  ref_pos :: int

text \<open>The condition of the \<^verbatim>\<open>if\<close> in the inner loop.\<close>

definition at_anchor :: "int \<Rightarrow> int \<Rightarrow> int \<Rightarrow> int \<Rightarrow> int \<Rightarrow> bool" where
  "at_anchor start end stride ref_inc rp \<longleftrightarrow>
     rp \<ge> start \<and> rp \<le> end \<and> c_mod rp stride = 0 \<and> ref_inc > 0"

text \<open>
  One iteration of the inner loop: the write into \<open>out\<close> (with its assertion), then the
  two increments.
\<close>

definition walk_unit :: "int \<Rightarrow> int \<Rightarrow> int \<Rightarrow> nat \<Rightarrow> int \<Rightarrow> int \<Rightarrow> walk \<Rightarrow> error + walk" where
  "walk_unit start end stride num_anchors read_inc ref_inc s =
     (if at_anchor start end stride ref_inc (ref_pos s)
         \<and> \<not> uint32_of_int (c_div (ref_pos s - start) stride) < num_anchors
      then Inl AnchorIdAssertion
      else if \<not> (int_ok (read_pos s + read_inc) \<and> int_ok (ref_pos s + ref_inc))
      then Inl IntegerOverflow
      else Inr \<lparr>out = (if at_anchor start end stride ref_inc (ref_pos s)
                       then (out s)[uint32_of_int (c_div (ref_pos s - start) stride) := read_pos s]
                       else out s),
                read_pos = read_pos s + read_inc,
                ref_pos = ref_pos s + ref_inc\<rparr>)"

text \<open>The inner loop, \<open>j\<close> from 0 to \<open>cigar_len\<close>.\<close>

fun walk_run :: "int \<Rightarrow> int \<Rightarrow> int \<Rightarrow> nat \<Rightarrow> int \<Rightarrow> int \<Rightarrow> nat \<Rightarrow> walk \<Rightarrow> error + walk" where
  "walk_run start end stride num_anchors read_inc ref_inc 0 s = Inr s"
| "walk_run start end stride num_anchors read_inc ref_inc (Suc n) s =
     (case walk_unit start end stride num_anchors read_inc ref_inc s of
        Inl e \<Rightarrow> Inl e
      | Inr s' \<Rightarrow> walk_run start end stride num_anchors read_inc ref_inc n s')"

text \<open>The outer loop over the operations, which stops once \<open>ref_pos\<close> exceeds \<open>end\<close>.\<close>

fun walk_cigar :: "int \<Rightarrow> int \<Rightarrow> int \<Rightarrow> nat \<Rightarrow> 32 word list \<Rightarrow> walk \<Rightarrow> error + walk" where
  "walk_cigar start end stride num_anchors [] s = Inr s"
| "walk_cigar start end stride num_anchors (c # cs) s =
     (if ref_pos s \<le> end then
        (case cigar_incs (cigar_op c) of
           Inl e \<Rightarrow> Inl e
         | Inr (read_inc, ref_inc) \<Rightarrow>
             (case walk_run start end stride num_anchors read_inc ref_inc (cigar_len c) s of
                Inl e \<Rightarrow> Inl e
              | Inr s' \<Rightarrow> walk_cigar start end stride num_anchors cs s'))
      else Inr s)"

definition match_read_to_reference_anchors :: "bam1_t \<Rightarrow> int \<Rightarrow> int \<Rightarrow> int \<Rightarrow> error + int list" where
  "match_read_to_reference_anchors record start end stride =
     (if stride = 0 then Inl DivisionByZero
      else if \<not> (int_ok (end - start) \<and> int_ok (c_div (end - start) stride + 1))
      then Inl IntegerOverflow
      else
        (let num_anchors = uint32_of_int (c_div (end - start) stride + 1) in
         case walk_cigar start end stride num_anchors (cigar record)
                \<lparr>out = replicate num_anchors (- 1), read_pos = 0, ref_pos = pos record\<rparr> of
           Inl e \<Rightarrow> Inl e
         | Inr s \<Rightarrow> Inr (out s)))"

subsection \<open>The writes of a walk\<close>

text \<open>
  The assignments \<^verbatim>\<open>out[anchor_id] = read_pos\<close> that a walk performs, in order, as pairs
  of slot and value. The functions follow \<open>walk_run\<close> and \<open>walk_cigar\<close> step by step and
  take every next state from \<open>walk_unit\<close>.
\<close>

definition unit_writes :: "int \<Rightarrow> int \<Rightarrow> int \<Rightarrow> int \<Rightarrow> walk \<Rightarrow> (nat \<times> int) list" where
  "unit_writes start end stride ref_inc s =
     (if at_anchor start end stride ref_inc (ref_pos s)
      then [(uint32_of_int (c_div (ref_pos s - start) stride), read_pos s)]
      else [])"

fun run_writes :: "int \<Rightarrow> int \<Rightarrow> int \<Rightarrow> nat \<Rightarrow> int \<Rightarrow> int \<Rightarrow> nat \<Rightarrow> walk \<Rightarrow> (nat \<times> int) list" where
  "run_writes start end stride num_anchors read_inc ref_inc 0 s = []"
| "run_writes start end stride num_anchors read_inc ref_inc (Suc n) s =
     (case walk_unit start end stride num_anchors read_inc ref_inc s of
        Inl e \<Rightarrow> []
      | Inr s' \<Rightarrow> unit_writes start end stride ref_inc s
                 @ run_writes start end stride num_anchors read_inc ref_inc n s')"

fun cigar_writes :: "int \<Rightarrow> int \<Rightarrow> int \<Rightarrow> nat \<Rightarrow> 32 word list \<Rightarrow> walk \<Rightarrow> (nat \<times> int) list" where
  "cigar_writes start end stride num_anchors [] s = []"
| "cigar_writes start end stride num_anchors (c # cs) s =
     (if ref_pos s \<le> end then
        (case cigar_incs (cigar_op c) of
           Inl e \<Rightarrow> []
         | Inr (read_inc, ref_inc) \<Rightarrow>
             run_writes start end stride num_anchors read_inc ref_inc (cigar_len c) s
             @ (case walk_run start end stride num_anchors read_inc ref_inc (cigar_len c) s of
                  Inl e \<Rightarrow> []
                | Inr s' \<Rightarrow> cigar_writes start end stride num_anchors cs s'))
      else [])"

definition anchor_writes :: "bam1_t \<Rightarrow> int \<Rightarrow> int \<Rightarrow> int \<Rightarrow> (nat \<times> int) list" where
  "anchor_writes record start end stride =
     (if stride = 0 \<or> \<not> (int_ok (end - start) \<and> int_ok (c_div (end - start) stride + 1))
      then []
      else
        (let num_anchors = uint32_of_int (c_div (end - start) stride + 1) in
         cigar_writes start end stride num_anchors (cigar record)
           \<lparr>out = replicate num_anchors (- 1), read_pos = 0, ref_pos = pos record\<rparr>))"

text \<open>Replaying a list of writes on a vector.\<close>

definition apply_writes :: "int list \<Rightarrow> (nat \<times> int) list \<Rightarrow> int list" where
  "apply_writes v ws = foldl (\<lambda>v (i, x). v[i := x]) v ws"

subsection \<open>Reads, anchors and columns\<close>

text \<open>The two strands of a read, the indices of \<^verbatim>\<open>strand_anchors\<close>.\<close>

datatype strand = T_IDX | C_IDX

text \<open>
  A loaded \<^verbatim>\<open>SquiggleRead\<close>. Its class is declared in \<^verbatim>\<open>nanopolish_squiggle_read.h\<close>,
  which is not among the sources; the source reads the base sequence and calls the two
  member functions, which are fields here.
\<close>

record SquiggleRead =
  read_name :: string
  read_sequence :: string
  flip_k_strand :: "int \<Rightarrow> int"
  get_closest_event_to :: "int \<Rightarrow> strand \<Rightarrow> int"

record HMMStrandAnchor =
  event_idx :: int
  rc :: bool

record HMMReadAnchorSet =
  strand_anchors :: "strand \<Rightarrow> HMMStrandAnchor list"

record HMMAnchoredColumn =
  anchors :: "HMMStrandAnchor list"
  base_sequence :: string
  alt_sequences :: "string list"

record HMMRealignmentInput =
  reads :: "SquiggleRead list"
  anchored_columns :: "HMMAnchoredColumn list"

text \<open>
  What the source takes from headers that are not among the sources, as parameters: the
  k-mer size \<^verbatim>\<open>K\<close> and \<^verbatim>\<open>reverse_complement\<close> of \<^verbatim>\<open>nanopolish_common.h\<close>, and the anchor
  that the default constructor of \<^verbatim>\<open>HMMStrandAnchor\<close> makes (\<^verbatim>\<open>nanopolish_anchor.h\<close>),
  with which \<^verbatim>\<open>resize\<close> fills the two vectors of a read.
\<close>

record common =
  K :: nat
  reverse_complement :: "string \<Rightarrow> string"
  unset_anchor :: HMMStrandAnchor

text \<open>
  \<^verbatim>\<open>std::string::substr(pos, count)\<close>: it throws \<^verbatim>\<open>std::out_of_range\<close> when \<open>pos\<close> is
  beyond the size, and returns at most the rest of the string. The source passes an
  \<^verbatim>\<open>int\<close> as the count; a negative one converts to a \<^verbatim>\<open>size_t\<close> above every size.
\<close>

definition substr :: "string \<Rightarrow> nat \<Rightarrow> int \<Rightarrow> error + string" where
  "substr s p n =
     (if p > length s then Inl SubstrOutOfRange
      else Inr (if n < 0 then drop p s else take (nat n) (drop p s)))"

subsection \<open>Alternative sequences of a read\<close>

text \<open>
  The two coordinates of the extraction, after the flip with its swap and after
  the two lines under the comment "clamp values within range".
\<close>

definition alt_kidx :: "common \<Rightarrow> SquiggleRead \<Rightarrow> bool \<Rightarrow> int \<Rightarrow> int \<Rightarrow> int \<times> int" where
  "alt_kidx env sr do_base_rc start_kidx end_kidx =
     (let max_kidx = int (length (read_sequence sr)) - int (K env);
          (s, e) = (if do_base_rc
                    then (flip_k_strand sr end_kidx, flip_k_strand sr start_kidx)
                    else (start_kidx, end_kidx))
      in (if s \<ge> 0 then s else 0, if e \<le> max_kidx then e else max_kidx))"

definition alt_sequence :: "common \<Rightarrow> SquiggleRead \<Rightarrow> bool \<Rightarrow> int \<Rightarrow> int \<Rightarrow> error + string" where
  "alt_sequence env sr do_base_rc start_kidx end_kidx =
     (let (s, e) = alt_kidx env sr do_base_rc start_kidx end_kidx in
      case substr (read_sequence sr) (nat s) (e - s + int (K env)) of
        Inl err \<Rightarrow> Inl err
      | Inr str \<Rightarrow> Inr (if do_base_rc then reverse_complement env str else str))"

subsection \<open>Event anchors of a read\<close>

text \<open>
  The body of the loop over \<open>ai\<close>, on the anchors of the read and the table
  \<^verbatim>\<open>read_substrings\<close> shared by all reads.
\<close>

definition anchor_step ::
  "common \<Rightarrow> SquiggleRead \<Rightarrow> bool \<Rightarrow> int list \<Rightarrow> nat
     \<Rightarrow> HMMReadAnchorSet \<times> string list list \<Rightarrow> error + HMMReadAnchorSet \<times> string list list" where
  "anchor_step env sr do_base_rc rb ai st =
     (let (event_anchors, read_substrings) = st in
      if rb ! ai = - 1 then Inr st
      else
        let read_kidx = (if do_base_rc then flip_k_strand sr (rb ! ai) else rb ! ai);
            template_idx = get_closest_event_to sr read_kidx T_IDX;
            complement_idx = get_closest_event_to sr read_kidx C_IDX
        in
        if \<not> (template_idx \<noteq> - 1 \<and> complement_idx \<noteq> - 1) then Inl NoEventAssertion
        else
          let sa = strand_anchors event_anchors;
              event_anchors' = event_anchors\<lparr>strand_anchors :=
                sa(T_IDX := (sa T_IDX)[ai := \<lparr>event_idx = template_idx, rc = do_base_rc\<rparr>],
                   C_IDX := (sa C_IDX)[ai := \<lparr>event_idx = complement_idx, rc = \<not> do_base_rc\<rparr>])\<rparr>
          in
          if ai < length rb - 1 then
            (case alt_sequence env sr do_base_rc (rb ! ai) (rb ! (ai + 1)) of
               Inl err \<Rightarrow> Inl err
             | Inr s \<Rightarrow>
                 let resized = (if ai \<ge> length read_substrings
                                then read_substrings @ replicate (ai + 1 - length read_substrings) []
                                else read_substrings)
                 in Inr (event_anchors', resized[ai := resized ! ai @ [s]]))
          else Inr (event_anchors', read_substrings))"

fun anchor_loop ::
  "common \<Rightarrow> SquiggleRead \<Rightarrow> bool \<Rightarrow> int list \<Rightarrow> nat list
     \<Rightarrow> HMMReadAnchorSet \<times> string list list \<Rightarrow> error + HMMReadAnchorSet \<times> string list list" where
  "anchor_loop env sr do_base_rc rb [] st = Inr st"
| "anchor_loop env sr do_base_rc rb (ai # ais) st =
     (case anchor_step env sr do_base_rc rb ai st of
        Inl err \<Rightarrow> Inl err
      | Inr st' \<Rightarrow> anchor_loop env sr do_base_rc rb ais st')"

subsection \<open>The loop over the alignment records\<close>

text \<open>
  The files are inputs of the model by their content: the records that the iterator
  yields, each with the \<^verbatim>\<open>SquiggleRead\<close> loaded for its name, and the fetched reference
  segment (\<^verbatim>\<open>fetched_len\<close> is its length). The state of the loop is \<^verbatim>\<open>ret.reads\<close>,
  \<^verbatim>\<open>read_anchors\<close> and \<^verbatim>\<open>read_substrings\<close>.
\<close>

type_synonym region_state = "SquiggleRead list \<times> HMMReadAnchorSet list \<times> string list list"

definition load_read ::
  "common \<Rightarrow> int \<Rightarrow> int \<Rightarrow> int \<Rightarrow> bam1_t \<times> SquiggleRead \<Rightarrow> region_state \<Rightarrow> error + region_state" where
  "load_read env start end stride rs st =
     (let (record, sr) = rs; (rds, read_anchors, read_substrings) = st in
      case match_read_to_reference_anchors record start end stride of
        Inl err \<Rightarrow> Inl err
      | Inr rb \<Rightarrow>
          (case anchor_loop env sr (is_rev record) rb [0..<length rb]
                  (\<lparr>strand_anchors = (\<lambda>_. replicate (length rb) (unset_anchor env))\<rparr>,
                   read_substrings) of
             Inl err \<Rightarrow> Inl err
           | Inr (event_anchors, read_substrings') \<Rightarrow>
               Inr (rds @ [sr], read_anchors @ [event_anchors], read_substrings')))"

fun load_reads ::
  "common \<Rightarrow> int \<Rightarrow> int \<Rightarrow> int \<Rightarrow> (bam1_t \<times> SquiggleRead) list \<Rightarrow> region_state \<Rightarrow> error + region_state" where
  "load_reads env start end stride [] st = Inr st"
| "load_reads env start end stride (rs # rss) st =
     (case load_read env start end stride rs st of
        Inl err \<Rightarrow> Inl err
      | Inr st' \<Rightarrow> load_reads env start end stride rss st')"

subsection \<open>The transposition into columns\<close>

text \<open>
  The loop over \<open>rai\<close> with its two assertions. The assertion after the loop, that
  the column has \<^verbatim>\<open>num_strands\<close> anchors, holds for every result of the loop (lemma
  \<open>column_anchors_length\<close> below) and has no branch of its own.
\<close>

fun column_anchors :: "HMMReadAnchorSet list \<Rightarrow> nat \<Rightarrow> error + HMMStrandAnchor list" where
  "column_anchors [] ai = Inr []"
| "column_anchors (ras # rest) ai =
     (if \<not> (ai < length (strand_anchors ras T_IDX) \<and> ai < length (strand_anchors ras C_IDX))
      then Inl ColumnAnchorAssertion
      else (case column_anchors rest ai of
              Inl err \<Rightarrow> Inl err
            | Inr as \<Rightarrow> Inr (strand_anchors ras T_IDX ! ai # strand_anchors ras C_IDX ! ai # as)))"

text \<open>
  The reference sequence of a column. The comparison of the source is one of unsigned
  values, so a negative \<open>base_length\<close> counts as larger than \<open>fetched_len\<close>. An offset
  outside the fetched segment has no defined result, and neither has \<^verbatim>\<open>back()\<close> of an
  empty string in the assertion.
\<close>

definition column_base_sequence :: "common \<Rightarrow> string \<Rightarrow> int \<Rightarrow> nat \<Rightarrow> error + string" where
  "column_base_sequence env ref_segment stride ai =
     (let fetched_len = int (length ref_segment);
          off = int ai * stride;
          base_length = stride + int (K env);
          base_length = (if base_length < 0 \<or> off + base_length > fetched_len
                         then fetched_len - off else base_length)
      in if off < 0 \<or> off > fetched_len then Inl BaseSequenceOutOfRange
         else if base_length = 0 then Inl BaseSequenceAssertion
         else let s = take (nat base_length) (drop (nat off) ref_segment) in
              if last s = CHR 0x00 then Inl BaseSequenceAssertion else Inr s)"

definition build_column ::
  "common \<Rightarrow> HMMReadAnchorSet list \<Rightarrow> string list list \<Rightarrow> string \<Rightarrow> int \<Rightarrow> nat \<Rightarrow> nat
     \<Rightarrow> error + HMMAnchoredColumn" where
  "build_column env read_anchors read_substrings ref_segment stride num_anchors ai =
     (case column_anchors read_anchors ai of
        Inl err \<Rightarrow> Inl err
      | Inr as \<Rightarrow>
          if ai \<noteq> num_anchors - 1 then
            (case column_base_sequence env ref_segment stride ai of
               Inl err \<Rightarrow> Inl err
             | Inr b \<Rightarrow>
                 if ai < length read_substrings
                 then Inr \<lparr>anchors = as, base_sequence = b, alt_sequences = read_substrings ! ai\<rparr>
                 else Inl ReadSubstringsOutOfRange)
          else Inr \<lparr>anchors = as, base_sequence = [], alt_sequences = []\<rparr>)"

fun build_columns ::
  "common \<Rightarrow> HMMReadAnchorSet list \<Rightarrow> string list list \<Rightarrow> string \<Rightarrow> int \<Rightarrow> nat \<Rightarrow> nat list
     \<Rightarrow> error + HMMAnchoredColumn list" where
  "build_columns env read_anchors read_substrings ref_segment stride num_anchors [] = Inr []"
| "build_columns env read_anchors read_substrings ref_segment stride num_anchors (ai # ais) =
     (case build_column env read_anchors read_substrings ref_segment stride num_anchors ai of
        Inl err \<Rightarrow> Inl err
      | Inr c \<Rightarrow>
          (case build_columns env read_anchors read_substrings ref_segment stride num_anchors ais of
             Inl err \<Rightarrow> Inl err
           | Inr cs \<Rightarrow> Inr (c # cs)))"

definition build_input_for_region ::
  "common \<Rightarrow> (bam1_t \<times> SquiggleRead) list \<Rightarrow> string \<Rightarrow> int \<Rightarrow> int \<Rightarrow> int
     \<Rightarrow> error + HMMRealignmentInput" where
  "build_input_for_region env records ref_segment start end stride =
     (case load_reads env start end stride records ([], [], []) of
        Inl err \<Rightarrow> Inl err
      | Inr (rds, read_anchors, read_substrings) \<Rightarrow>
          if read_anchors = [] then Inl NoReadsAssertion
          else if length (strand_anchors (hd read_anchors) T_IDX)
                  \<noteq> length (strand_anchors (last read_anchors) T_IDX)
          then Inl AnchorCountAssertion
          else
            (let num_anchors = length (strand_anchors (hd read_anchors) T_IDX) in
             case build_columns env read_anchors read_substrings ref_segment stride num_anchors
                    [0..<num_anchors] of
               Inl err \<Rightarrow> Inl err
             | Inr cols \<Rightarrow> Inr \<lparr>reads = rds, anchored_columns = cols\<rparr>))"

subsection \<open>Auxiliary predicates of the proofs\<close>

text \<open>
  Slot \<open>j\<close> of the output is the slot of reference position \<open>r\<close>: the walk writes
  slot \<open>j\<close> only at such a position.
\<close>

definition slot_at :: "int \<Rightarrow> int \<Rightarrow> nat \<Rightarrow> int \<Rightarrow> bool" where
  "slot_at start stride j r \<longleftrightarrow> stride dvd r \<and> start \<le> r \<and> int j = (r - start) div stride"

text \<open>
  The invariant of the walk: the entries written so far are read positions that the
  read cursor has reached, they were written behind the reference cursor, and they
  increase with the slot.
\<close>

definition walk_inv :: "int \<Rightarrow> int \<Rightarrow> walk \<Rightarrow> bool" where
  "walk_inv start stride s \<longleftrightarrow>
     0 \<le> read_pos s
     \<and> (\<forall>j < length (out s). out s ! j \<noteq> - 1 \<longrightarrow>
           0 \<le> out s ! j \<and> out s ! j \<le> read_pos s
           \<and> (\<exists>r. r < ref_pos s \<and> slot_at start stride j r))
     \<and> (\<forall>i j. i < j \<and> j < length (out s) \<and> out s ! i \<noteq> - 1 \<and> out s ! j \<noteq> - 1
           \<longrightarrow> out s ! i \<le> out s ! j)"

text \<open>
  The slots of a list of writes are pairwise different and belong to reference
  positions from \<open>lo\<close> on, or to reference positions below \<open>hi\<close>.
\<close>

definition slots_from :: "int \<Rightarrow> int \<Rightarrow> int \<Rightarrow> (nat \<times> int) list \<Rightarrow> bool" where
  "slots_from start stride lo ws \<longleftrightarrow>
     distinct (map fst ws) \<and> (\<forall>j \<in> fst ` set ws. \<exists>r. lo \<le> r \<and> slot_at start stride j r)"

definition slots_below :: "int \<Rightarrow> int \<Rightarrow> int \<Rightarrow> (nat \<times> int) list \<Rightarrow> bool" where
  "slots_below start stride hi ws \<longleftrightarrow>
     (\<forall>j \<in> fst ` set ws. \<exists>r. r < hi \<and> slot_at start stride j r)"

subsection \<open>Auxiliary functions of the statements\<close>

text \<open>Row \<open>i\<close> of the table \<^verbatim>\<open>read_substrings\<close>, empty where the table has no such row.\<close>

definition row :: "'a list list \<Rightarrow> nat \<Rightarrow> 'a list" where
  "row t i = (if i < length t then t ! i else [])"

text \<open>The output of the walker for a record, where it has one.\<close>

definition read_bases :: "int \<Rightarrow> int \<Rightarrow> int \<Rightarrow> bam1_t \<Rightarrow> int list" where
  "read_bases start end stride record =
     (case match_read_to_reference_anchors record start end stride of
        Inl err \<Rightarrow> []
      | Inr rb \<Rightarrow> rb)"

text \<open>
  What iteration \<open>ai\<close> of the loop of \<open>anchor_step\<close> appends to row \<open>ai\<close> of the
  table: the condition is that of the source (the coordinate at \<open>ai\<close> is not the
  marker, and \<open>ai\<close> is not the last index).
\<close>

definition emitted :: "common \<Rightarrow> SquiggleRead \<Rightarrow> bool \<Rightarrow> int list \<Rightarrow> nat \<Rightarrow> string list" where
  "emitted env sr do_base_rc rb ai =
     (if ai < length rb - 1 \<and> rb ! ai \<noteq> - 1
      then (case alt_sequence env sr do_base_rc (rb ! ai) (rb ! (ai + 1)) of
              Inl err \<Rightarrow> []
            | Inr s \<Rightarrow> [s])
      else [])"

text \<open>The anchor that iteration \<open>ai\<close> stores for a strand.\<close>

definition event_anchor :: "SquiggleRead \<Rightarrow> bool \<Rightarrow> int \<Rightarrow> strand \<Rightarrow> HMMStrandAnchor" where
  "event_anchor sr do_base_rc k st =
     \<lparr>event_idx = get_closest_event_to sr (if do_base_rc then flip_k_strand sr k else k) st,
      rc = (case st of T_IDX \<Rightarrow> do_base_rc | C_IDX \<Rightarrow> \<not> do_base_rc)\<rparr>"

text \<open>
  The anchors of one strand of a read with walker output \<open>rb\<close>, and the relation
  between a record with its read and the anchor set that the loop builds for it.
\<close>

definition read_anchor_list ::
  "common \<Rightarrow> SquiggleRead \<Rightarrow> bool \<Rightarrow> int list \<Rightarrow> strand \<Rightarrow> HMMStrandAnchor list" where
  "read_anchor_list env sr do_base_rc rb st =
     map (\<lambda>j. if rb ! j \<noteq> - 1 then event_anchor sr do_base_rc (rb ! j) st else unset_anchor env)
       [0..<length rb]"

definition anchors_of ::
  "common \<Rightarrow> int \<Rightarrow> int \<Rightarrow> int \<Rightarrow> bam1_t \<times> SquiggleRead \<Rightarrow> HMMReadAnchorSet \<Rightarrow> bool" where
  "anchors_of env start end stride rs ea \<longleftrightarrow>
     match_read_to_reference_anchors (fst rs) start end stride
       = Inr (read_bases start end stride (fst rs))
     \<and> (\<forall>st. strand_anchors ea st
           = read_anchor_list env (snd rs) (is_rev (fst rs)) (read_bases start end stride (fst rs)) st)"

text \<open>What a record with its read appends to row \<open>j\<close> of the table.\<close>

definition read_emitted ::
  "common \<Rightarrow> int \<Rightarrow> int \<Rightarrow> int \<Rightarrow> nat \<Rightarrow> bam1_t \<times> SquiggleRead \<Rightarrow> string list" where
  "read_emitted env start end stride j rs =
     emitted env (snd rs) (is_rev (fst rs)) (read_bases start end stride (fst rs)) j"

subsection \<open>Example inputs\<close>

definition example_read :: SquiggleRead where
  "example_read =
     \<lparr>read_name = ''read'', read_sequence = ''ACGTACGTAC'',
      flip_k_strand = (\<lambda>k. 10 - k - 5),
      get_closest_event_to = (\<lambda>k st. case st of T_IDX \<Rightarrow> 2 * k | C_IDX \<Rightarrow> 100 - 2 * k)\<rparr>"

definition example_complement :: "char \<Rightarrow> char" where
  "example_complement c =
     (if c = CHR ''A'' then CHR ''T'' else if c = CHR ''T'' then CHR ''A''
      else if c = CHR ''C'' then CHR ''G'' else if c = CHR ''G'' then CHR ''C'' else c)"

definition example_common :: common where
  "example_common =
     \<lparr>K = 5, reverse_complement = (\<lambda>s. rev (map example_complement s)),
      unset_anchor = \<lparr>event_idx = - 1, rc = False\<rparr>\<rparr>"

definition example_records :: "(bam1_t \<times> SquiggleRead) list" where
  "example_records =
     [(\<lparr>qname = ''read'', pos = 0, is_rev = False, cigar = [0xA0]\<rparr>, example_read),
      (\<lparr>qname = ''read'', pos = 2, is_rev = True, cigar = [0x60]\<rparr>, example_read)]"

definition example_columns :: "HMMAnchoredColumn list" where
  "example_columns =
     [\<lparr>anchors = [\<lparr>event_idx = 0, rc = False\<rparr>, \<lparr>event_idx = 100, rc = True\<rparr>,
                  \<lparr>event_idx = - 1, rc = False\<rparr>, \<lparr>event_idx = - 1, rc = False\<rparr>],
       base_sequence = ''ACGTACG'', alt_sequences = [''ACGTACG'']\<rparr>,
      \<lparr>anchors = [\<lparr>event_idx = 4, rc = False\<rparr>, \<lparr>event_idx = 96, rc = True\<rparr>,
                  \<lparr>event_idx = 10, rc = True\<rparr>, \<lparr>event_idx = 90, rc = False\<rparr>],
       base_sequence = ''GTACGTA'', alt_sequences = [''GTACGTA'', ''GTACGTA'']\<rparr>,
      \<lparr>anchors = [\<lparr>event_idx = 8, rc = False\<rparr>, \<lparr>event_idx = 92, rc = True\<rparr>,
                  \<lparr>event_idx = 6, rc = True\<rparr>, \<lparr>event_idx = 94, rc = False\<rparr>],
       base_sequence = ''ACGTAC'', alt_sequences = [''ACGTAC'', ''ACGTACG'']\<rparr>,
      \<lparr>anchors = [\<lparr>event_idx = 12, rc = False\<rparr>, \<lparr>event_idx = 88, rc = True\<rparr>,
                  \<lparr>event_idx = 2, rc = True\<rparr>, \<lparr>event_idx = 98, rc = False\<rparr>],
       base_sequence = ''GTAC'', alt_sequences = [''GTAC'', []]\<rparr>,
      \<lparr>anchors = [\<lparr>event_idx = 16, rc = False\<rparr>, \<lparr>event_idx = 84, rc = True\<rparr>,
                  \<lparr>event_idx = - 1, rc = False\<rparr>, \<lparr>event_idx = - 1, rc = False\<rparr>],
       base_sequence = [], alt_sequences = []\<rparr>]"

definition example_short_records :: "(bam1_t \<times> SquiggleRead) list" where
  "example_short_records =
     [(\<lparr>qname = ''read'', pos = 0, is_rev = False, cigar = [0x40]\<rparr>, example_read)]"

definition example_forward_records :: "(bam1_t \<times> SquiggleRead) list" where
  "example_forward_records =
     [(\<lparr>qname = ''read'', pos = 0, is_rev = False, cigar = [0xA0]\<rparr>, example_read)]"

section \<open>Properties\<close>

subsection \<open>Arithmetic of the walk\<close>

lemma c_div_nonneg: "0 \<le> a \<Longrightarrow> 0 < b \<Longrightarrow> c_div a b = a div b"
  by (simp add: c_div_def)

lemma c_mod_eq_0_iff: "0 < b \<Longrightarrow> c_mod a b = 0 \<longleftrightarrow> b dvd a"
proof (cases "a < 0")
  case True
  assume b: "0 < b"
  from True b have "c_mod a b = - ((- a) mod b)"
    by (simp add: c_mod_def c_div_def minus_mult_div_eq_mod [symmetric] algebra_simps)
  then show ?thesis using b by (simp add: dvd_eq_mod_eq_0 [symmetric])
next
  case False
  assume b: "0 < b"
  from False b have "c_mod a b = a mod b"
    by (simp add: c_mod_def c_div_def minus_mult_div_eq_mod)
  then show ?thesis by (simp add: dvd_eq_mod_eq_0)
qed

lemma uint32_of_int_id: "0 \<le> x \<Longrightarrow> x < 2 ^ 32 \<Longrightarrow> uint32_of_int x = nat x"
  by (simp add: uint32_of_int_def)

lemma int_div_le_self: "0 \<le> a \<Longrightarrow> 0 < b \<Longrightarrow> a div b \<le> (a::int)"
  using zdiv_mono2 [of a 1 b] by simp

lemma anchor_slot_mono:
  assumes "0 < stride" "stride dvd r1" "stride dvd r2" "r1 < r2"
  shows "(r1 - start) div stride < (r2 - start) div (stride::int)"
proof -
  from assms obtain k1 k2 where k: "r1 = stride * k1" "r2 = stride * k2" by (auto elim!: dvdE)
  with assms have "k1 < k2" by (simp add: mult_less_cancel_left_pos)
  then have "r1 + stride \<le> r2" using k assms(1)
    by (metis add.commute distrib_left mult.right_neutral mult_le_cancel_left_pos zless_imp_add1_zle)
  then have "(r1 + stride - start) div stride \<le> (r2 - start) div stride"
    using assms(1) by (intro zdiv_mono1) auto
  moreover have "(r1 + stride - start) div stride = (r1 - start) div stride + 1"
    using assms(1) by (metis add.commute add_diff_eq div_add_self1 less_int_code(1))
  ultimately show ?thesis by simp
qed

lemma num_anchors_valid:
  assumes "start \<le> end" "0 < stride" "int_ok (end - start)"
  shows "uint32_of_int (c_div (end - start) stride + 1) = nat ((end - start) div stride + 1)"
proof -
  have "(end - start) div stride \<le> end - start"
    using assms by (simp add: int_div_le_self)
  moreover have "0 \<le> (end - start) div stride"
    using assms by (simp add: pos_imp_zdiv_nonneg_iff)
  ultimately show ?thesis
    using assms by (simp add: c_div_nonneg uint32_of_int_id int_ok_def)
qed

subsection \<open>The length of the walker's output\<close>

lemma walk_unit_length:
  "walk_unit start end stride n ri fi s = Inr s' \<Longrightarrow> length (out s') = length (out s)"
  by (auto simp: walk_unit_def split: if_splits)

lemma walk_run_length:
  "walk_run start end stride n ri fi k s = Inr s' \<Longrightarrow> length (out s') = length (out s)"
proof (induction k arbitrary: s)
  case 0
  then show ?case by simp
next
  case (Suc k)
  then show ?case by (auto split: sum.splits dest: walk_unit_length)
qed

lemma walk_cigar_length:
  "walk_cigar start end stride n cs s = Inr s' \<Longrightarrow> length (out s') = length (out s)"
proof (induction cs arbitrary: s)
  case Nil
  then show ?case by simp
next
  case (Cons c cs)
  then show ?case by (auto split: sum.splits if_splits dest: walk_run_length)
qed

text \<open>
  C4. For a region with \<open>start \<le> end\<close> and a positive stride, every output of
  \<open>match_read_to_reference_anchors\<close> has \<open>(end - start) div stride + 1\<close> entries,
  whatever the record.
\<close>

theorem walker_output_length:
  assumes "start \<le> end" and "0 < stride"
    and "match_read_to_reference_anchors record start end stride = Inr v"
  shows "length v = nat ((end - start) div stride + 1)"
proof -
  let ?n = "uint32_of_int (c_div (end - start) stride + 1)"
  from assms(3) have ok: "int_ok (end - start)"
    by (simp add: match_read_to_reference_anchors_def split: if_splits)
  from assms(3) obtain s where
    s: "walk_cigar start end stride ?n (cigar record)
          \<lparr>out = replicate ?n (- 1), read_pos = 0, ref_pos = pos record\<rparr> = Inr s"
    and v: "v = out s"
    by (auto simp: match_read_to_reference_anchors_def Let_def split: if_splits sum.splits)
  from walk_cigar_length [OF s] have "length v = ?n" by (simp add: v)
  then show ?thesis by (simp add: num_anchors_valid [OF assms(1,2) ok])
qed

theorem walker_output_length_witness:
  "match_read_to_reference_anchors
     \<lparr>qname = ''read1'', pos = 1000, is_rev = False, cigar = [0x650]\<rparr> 1000 1100 50
     = Inr [0, 50, 100]
   \<and> length [0, 50, 100 :: int] = nat ((1100 - 1000) div 50 + 1)"
proof -
  have run: "match_read_to_reference_anchors
     \<lparr>qname = ''read1'', pos = 1000, is_rev = False, cigar = [0x650]\<rparr> 1000 1100 50
     = Inr [0, 50, 100]"
    by code_simp
  from walker_output_length [OF _ _ run] run show ?thesis by simp
qed

subsection \<open>The invariant of the walk\<close>

lemma slot_at_less:
  "0 < stride \<Longrightarrow> slot_at start stride i r1 \<Longrightarrow> slot_at start stride j r2 \<Longrightarrow> r1 < r2 \<Longrightarrow> i < j"
  using anchor_slot_mono [of stride r1 r2 start] by (simp add: slot_at_def)

lemma slot_at_inj:
  assumes "0 < stride" "slot_at start stride j r1" "slot_at start stride j r2"
  shows "r1 = r2"
proof (rule ccontr)
  assume "r1 \<noteq> r2"
  then consider "r1 < r2" | "r2 < r1" by linarith
  then show False
    using slot_at_less [OF assms(1,2,3)] slot_at_less [OF assms(1,3,2)] by cases auto
qed

lemma at_anchor_slot:
  assumes "0 < stride" "int_ok (end - start)" "at_anchor start end stride fi rp"
  shows "uint32_of_int (c_div (rp - start) stride) = nat ((rp - start) div stride)"
    and "slot_at start stride (nat ((rp - start) div stride)) rp"
    and "0 < fi"
proof -
  from assms(3) have rp: "start \<le> rp" "rp \<le> end" "c_mod rp stride = 0" and fi: "0 < fi"
    by (simp_all add: at_anchor_def)
  have nn: "0 \<le> (rp - start) div stride"
    using rp assms(1) by (simp add: pos_imp_zdiv_nonneg_iff)
  have "(rp - start) div stride \<le> rp - start"
    using rp assms(1) by (simp add: int_div_le_self)
  with rp assms(2) have "(rp - start) div stride < 2 ^ 32"
    by (simp add: int_ok_def)
  with nn rp assms(1) show "uint32_of_int (c_div (rp - start) stride) = nat ((rp - start) div stride)"
    by (simp add: c_div_nonneg uint32_of_int_id)
  from rp assms(1) nn show "slot_at start stride (nat ((rp - start) div stride)) rp"
    by (simp add: slot_at_def c_mod_eq_0_iff)
  show "0 < fi" by (rule fi)
qed

lemma walk_unit_Inr:
  assumes "walk_unit start end stride n ri fi s = Inr s'"
  shows "read_pos s' = read_pos s + ri" and "ref_pos s' = ref_pos s + fi"
    and "out s' = apply_writes (out s) (unit_writes start end stride fi s)"
  using assms by (auto simp: walk_unit_def unit_writes_def apply_writes_def split: if_splits)

lemma walk_unit_inv:
  assumes st: "0 < stride" and ok: "int_ok (end - start)" and ri: "0 \<le> ri" and fi: "0 \<le> fi"
    and inv: "walk_inv start stride s"
    and step: "walk_unit start end stride n ri fi s = Inr s'"
  shows "walk_inv start stride s'"
proof (cases "at_anchor start end stride fi (ref_pos s)")
  case False
  with step have s': "out s' = out s" "read_pos s' = read_pos s + ri" "ref_pos s' = ref_pos s + fi"
    by (auto simp: walk_unit_def split: if_splits)
  have 2: "\<forall>j < length (out s'). out s' ! j \<noteq> - 1 \<longrightarrow>
           0 \<le> out s' ! j \<and> out s' ! j \<le> read_pos s'
           \<and> (\<exists>r. r < ref_pos s' \<and> slot_at start stride j r)"
  proof (intro allI impI)
    fix j assume j: "j < length (out s')" "out s' ! j \<noteq> - 1"
    with inv obtain r where "r < ref_pos s" "slot_at start stride j r"
      "0 \<le> out s ! j" "out s ! j \<le> read_pos s"
      by (auto simp: walk_inv_def s')
    with ri fi show "0 \<le> out s' ! j \<and> out s' ! j \<le> read_pos s'
           \<and> (\<exists>r. r < ref_pos s' \<and> slot_at start stride j r)"
      unfolding s' by (auto intro!: exI [of _ r])
  qed
  from inv ri have "0 \<le> read_pos s'" by (simp add: walk_inv_def s')
  moreover from inv have "\<forall>i j. i < j \<and> j < length (out s') \<and> out s' ! i \<noteq> - 1 \<and> out s' ! j \<noteq> - 1
           \<longrightarrow> out s' ! i \<le> out s' ! j"
    by (simp add: walk_inv_def s')
  ultimately show ?thesis using 2 by (simp add: walk_inv_def)
next
  case True
  let ?a = "nat ((ref_pos s - start) div stride)"
  note sl = at_anchor_slot [OF st ok True]
  from step True sl(1) have s': "out s' = (out s)[?a := read_pos s]"
      "read_pos s' = read_pos s + ri" "ref_pos s' = ref_pos s + fi" and a: "?a < n"
    by (auto simp: walk_unit_def split: if_splits)
  from inv have rp0: "0 \<le> read_pos s" by (simp add: walk_inv_def)
  have old: "\<And>j. j < length (out s) \<Longrightarrow> out s ! j \<noteq> - 1 \<Longrightarrow>
      0 \<le> out s ! j \<and> out s ! j \<le> read_pos s \<and> j < ?a"
  proof -
    fix j assume j: "j < length (out s)" "out s ! j \<noteq> - 1"
    with inv obtain r where r: "r < ref_pos s" "slot_at start stride j r"
      and v: "0 \<le> out s ! j" "out s ! j \<le> read_pos s"
      by (auto simp: walk_inv_def)
    from slot_at_less [OF st r(2) sl(2) r(1)] v
    show "0 \<le> out s ! j \<and> out s ! j \<le> read_pos s \<and> j < ?a" by simp
  qed
  have 1: "0 \<le> read_pos s'" using rp0 ri by (simp add: s')
  have 2: "\<forall>j < length (out s'). out s' ! j \<noteq> - 1 \<longrightarrow>
           0 \<le> out s' ! j \<and> out s' ! j \<le> read_pos s'
           \<and> (\<exists>r. r < ref_pos s' \<and> slot_at start stride j r)"
  proof (intro allI impI)
    fix j assume j: "j < length (out s')" "out s' ! j \<noteq> - 1"
    show "0 \<le> out s' ! j \<and> out s' ! j \<le> read_pos s'
           \<and> (\<exists>r. r < ref_pos s' \<and> slot_at start stride j r)"
    proof (cases "j = ?a")
      case True
      with j rp0 ri sl(2,3) show ?thesis
        unfolding s' by (auto intro!: exI [of _ "ref_pos s"])
    next
      case False
      with j have j': "j < length (out s)" "out s ! j \<noteq> - 1" by (simp_all add: s')
      with inv obtain r where r: "r < ref_pos s" "slot_at start stride j r"
        by (auto simp: walk_inv_def)
      with old [OF j'] False ri fi show ?thesis
        unfolding s' by (auto intro!: exI [of _ r])
    qed
  qed
  have 3: "\<forall>i j. i < j \<and> j < length (out s') \<and> out s' ! i \<noteq> - 1 \<and> out s' ! j \<noteq> - 1
           \<longrightarrow> out s' ! i \<le> out s' ! j"
  proof (intro allI impI, elim conjE)
    fix i j assume ij: "i < j" "j < length (out s')" "out s' ! i \<noteq> - 1" "out s' ! j \<noteq> - 1"
    show "out s' ! i \<le> out s' ! j"
    proof (cases "j = ?a")
      case True
      with ij have "i \<noteq> ?a" "i < length (out s)" "out s ! i \<noteq> - 1" by (simp_all add: s')
      with old [of i] True ij(2) show ?thesis by (simp add: s')
    next
      case ja: False
      with ij have j': "j < length (out s)" "out s ! j \<noteq> - 1" by (simp_all add: s')
      show ?thesis
      proof (cases "i = ?a")
        case True
        with old [OF j'] ij(1) show ?thesis by simp
      next
        case False
        with ij ja j' inv show ?thesis by (simp add: s' walk_inv_def)
      qed
    qed
  qed
  from 1 2 3 show ?thesis by (simp add: walk_inv_def)
qed


lemma cigar_incs_Inr:
  "cigar_incs op = Inr (ri, fi) \<Longrightarrow> (ri = 0 \<or> ri = 1) \<and> (fi = 0 \<or> fi = 1)"
  by (auto simp: cigar_incs_def split: if_splits)

lemma walk_run_inv:
  assumes "0 < stride" "int_ok (end - start)" "0 \<le> ri" "0 \<le> fi"
  shows "walk_inv start stride s \<Longrightarrow> walk_run start end stride n ri fi k s = Inr s'
    \<Longrightarrow> walk_inv start stride s'"
proof (induction k arbitrary: s)
  case 0
  then show ?case by simp
next
  case (Suc k)
  from Suc.prems(2) obtain s1 where
    u: "walk_unit start end stride n ri fi s = Inr s1"
    and r: "walk_run start end stride n ri fi k s1 = Inr s'"
    by (auto split: sum.splits)
  from walk_unit_inv [OF assms Suc.prems(1) u] r show ?case by (rule Suc.IH)
qed

lemma walk_cigar_inv:
  assumes "0 < stride" "int_ok (end - start)"
  shows "walk_inv start stride s \<Longrightarrow> walk_cigar start end stride n cs s = Inr s'
    \<Longrightarrow> walk_inv start stride s'"
proof (induction cs arbitrary: s)
  case Nil
  then show ?case by simp
next
  case (Cons c cs)
  show ?case
  proof (cases "ref_pos s \<le> end")
    case False
    with Cons.prems show ?thesis by simp
  next
    case True
    with Cons.prems(2) obtain ri fi s1 where
      incs: "cigar_incs (cigar_op c) = Inr (ri, fi)"
      and r: "walk_run start end stride n ri fi (cigar_len c) s = Inr s1"
      and rest: "walk_cigar start end stride n cs s1 = Inr s'"
      by (auto split: sum.splits)
    from cigar_incs_Inr [OF incs] have "0 \<le> ri" "0 \<le> fi" by auto
    from walk_run_inv [OF assms this Cons.prems(1) r] rest show ?thesis by (rule Cons.IH)
  qed
qed

lemma walk_inv_init: "walk_inv start stride \<lparr>out = replicate n (- 1), read_pos = 0, ref_pos = p\<rparr>"
  by (simp add: walk_inv_def)

subsection \<open>The output is the replay of the writes\<close>

lemma apply_writes_append: "apply_writes v (ws @ ws') = apply_writes (apply_writes v ws) ws'"
  by (simp add: apply_writes_def)

lemma apply_writes_Nil: "apply_writes v [] = v"
  by (simp add: apply_writes_def)

lemma walk_run_writes:
  "walk_run start end stride n ri fi k s = Inr s'
    \<Longrightarrow> out s' = apply_writes (out s) (run_writes start end stride n ri fi k s)"
proof (induction k arbitrary: s)
  case 0
  then show ?case by (simp add: apply_writes_Nil)
next
  case (Suc k)
  from Suc.prems obtain s1 where
    u: "walk_unit start end stride n ri fi s = Inr s1"
    and r: "walk_run start end stride n ri fi k s1 = Inr s'"
    by (auto split: sum.splits)
  from Suc.IH [OF r] walk_unit_Inr(3) [OF u] u show ?case
    by (simp add: apply_writes_append)
qed

lemma walk_cigar_writes:
  "walk_cigar start end stride n cs s = Inr s'
    \<Longrightarrow> out s' = apply_writes (out s) (cigar_writes start end stride n cs s)"
proof (induction cs arbitrary: s)
  case Nil
  then show ?case by (simp add: apply_writes_Nil)
next
  case (Cons c cs)
  show ?case
  proof (cases "ref_pos s \<le> end")
    case False
    with Cons.prems show ?thesis by (simp add: apply_writes_Nil)
  next
    case True
    with Cons.prems obtain ri fi s1 where
      incs: "cigar_incs (cigar_op c) = Inr (ri, fi)"
      and r: "walk_run start end stride n ri fi (cigar_len c) s = Inr s1"
      and rest: "walk_cigar start end stride n cs s1 = Inr s'"
      by (auto split: sum.splits)
    from Cons.IH [OF rest] walk_run_writes [OF r] True incs r show ?thesis
      by (simp add: apply_writes_append)
  qed
qed

lemma walk_run_ref_pos:
  "walk_run start end stride n ri fi k s = Inr s' \<Longrightarrow> ref_pos s' = ref_pos s + int k * fi"
proof (induction k arbitrary: s)
  case 0
  then show ?case by simp
next
  case (Suc k)
  from Suc.prems obtain s1 where
    u: "walk_unit start end stride n ri fi s = Inr s1"
    and r: "walk_run start end stride n ri fi k s1 = Inr s'"
    by (auto split: sum.splits)
  from Suc.IH [OF r] walk_unit_Inr(2) [OF u] show ?case by (simp add: algebra_simps)
qed

subsection \<open>The slots of the writes\<close>

lemma slots_from_Nil: "slots_from start stride lo []"
  by (simp add: slots_from_def)

lemma slots_below_Nil: "slots_below start stride hi []"
  by (simp add: slots_below_def)

lemma slots_from_mono: "lo' \<le> lo \<Longrightarrow> slots_from start stride lo ws \<Longrightarrow> slots_from start stride lo' ws"
  unfolding slots_from_def by (meson order_trans)

lemma slots_below_mono: "hi \<le> hi' \<Longrightarrow> slots_below start stride hi ws \<Longrightarrow> slots_below start stride hi' ws"
  unfolding slots_below_def by (meson less_le_trans)

lemma slots_append:
  assumes st: "0 < stride" and le: "lo \<le> mid"
    and a: "slots_from start stride lo ws" and b: "slots_below start stride mid ws"
    and c: "slots_from start stride mid ws'"
  shows "slots_from start stride lo (ws @ ws')"
proof -
  have disj: "fst ` set ws \<inter> fst ` set ws' = {}"
  proof (rule ccontr)
    assume "fst ` set ws \<inter> fst ` set ws' \<noteq> {}"
    then obtain j where j: "j \<in> fst ` set ws" "j \<in> fst ` set ws'" by blast
    from b j(1) obtain r1 where r1: "r1 < mid" "slot_at start stride j r1"
      by (auto simp: slots_below_def)
    from c j(2) obtain r2 where r2: "mid \<le> r2" "slot_at start stride j r2"
      by (auto simp: slots_from_def)
    from slot_at_inj [OF st r1(2) r2(2)] r1(1) r2(1) show False by simp
  qed
  from slots_from_mono [OF le c] have c': "slots_from start stride lo ws'" .
  from a c' disj show ?thesis
    unfolding slots_from_def by (auto simp: image_Un)
qed

lemma slots_below_append:
  "slots_below start stride hi ws \<Longrightarrow> slots_below start stride hi ws'
    \<Longrightarrow> slots_below start stride hi (ws @ ws')"
  by (auto simp: slots_below_def)

lemma unit_writes_slots:
  assumes "0 < stride" "int_ok (end - start)"
  shows "slots_from start stride (ref_pos s) (unit_writes start end stride fi s)"
    and "slots_below start stride (ref_pos s + fi) (unit_writes start end stride fi s)"
proof -
  show "slots_from start stride (ref_pos s) (unit_writes start end stride fi s)"
  proof (cases "at_anchor start end stride fi (ref_pos s)")
    case True
    from at_anchor_slot [OF assms True] show ?thesis
      by (auto simp: unit_writes_def slots_from_def True intro!: exI [of _ "ref_pos s"])
  next
    case False
    then show ?thesis by (simp add: unit_writes_def slots_from_Nil)
  qed
  show "slots_below start stride (ref_pos s + fi) (unit_writes start end stride fi s)"
  proof (cases "at_anchor start end stride fi (ref_pos s)")
    case True
    from at_anchor_slot [OF assms True] show ?thesis
      by (auto simp: unit_writes_def slots_below_def True intro!: exI [of _ "ref_pos s"])
  next
    case False
    then show ?thesis by (simp add: unit_writes_def slots_below_Nil)
  qed
qed

lemma run_writes_slots_from:
  assumes "0 < stride" "int_ok (end - start)" "0 \<le> fi"
  shows "slots_from start stride (ref_pos s) (run_writes start end stride n ri fi k s)"
proof (induction k arbitrary: s)
  case 0
  show ?case by (simp add: slots_from_Nil)
next
  case (Suc k)
  show ?case
  proof (cases "walk_unit start end stride n ri fi s")
    case (Inl e)
    then show ?thesis by (simp add: slots_from_Nil)
  next
    case (Inr s1)
    from walk_unit_Inr(2) [OF Inr] have rp: "ref_pos s1 = ref_pos s + fi" .
    have "slots_from start stride (ref_pos s)
            (unit_writes start end stride fi s @ run_writes start end stride n ri fi k s1)"
    proof (rule slots_append [OF assms(1)])
      show "ref_pos s \<le> ref_pos s1" using assms(3) rp by simp
      show "slots_from start stride (ref_pos s) (unit_writes start end stride fi s)"
        by (rule unit_writes_slots(1) [OF assms(1,2)])
      show "slots_below start stride (ref_pos s1) (unit_writes start end stride fi s)"
        unfolding rp by (rule unit_writes_slots(2) [OF assms(1,2)])
      show "slots_from start stride (ref_pos s1) (run_writes start end stride n ri fi k s1)"
        by (rule Suc.IH)
    qed
    with Inr show ?thesis by simp
  qed
qed

lemma run_writes_slots_below:
  assumes "0 < stride" "int_ok (end - start)" "0 \<le> fi"
  shows "walk_run start end stride n ri fi k s = Inr s'
    \<Longrightarrow> slots_below start stride (ref_pos s') (run_writes start end stride n ri fi k s)"
proof (induction k arbitrary: s)
  case 0
  show ?case by (simp add: slots_below_Nil)
next
  case (Suc k)
  from Suc.prems obtain s1 where
    u: "walk_unit start end stride n ri fi s = Inr s1"
    and r: "walk_run start end stride n ri fi k s1 = Inr s'"
    by (auto split: sum.splits)
  from walk_unit_Inr(2) [OF u] have rp: "ref_pos s1 = ref_pos s + fi" .
  from walk_run_ref_pos [OF r] assms(3) have "ref_pos s1 \<le> ref_pos s'" by simp
  with unit_writes_slots(2) [OF assms(1,2), of s fi]
  have "slots_below start stride (ref_pos s') (unit_writes start end stride fi s)"
    unfolding rp [symmetric] by (rule slots_below_mono [rotated])
  with Suc.IH [OF r] u show ?case by (simp add: slots_below_append)
qed

lemma cigar_writes_slots_from:
  assumes "0 < stride" "int_ok (end - start)"
  shows "slots_from start stride (ref_pos s) (cigar_writes start end stride n cs s)"
proof (induction cs arbitrary: s)
  case Nil
  show ?case by (simp add: slots_from_Nil)
next
  case (Cons c cs)
  show ?case
  proof (cases "ref_pos s \<le> end")
    case False
    then show ?thesis by (simp add: slots_from_Nil)
  next
    case True
    show ?thesis
    proof (cases "cigar_incs (cigar_op c)")
      case (Inl e)
      with True show ?thesis by (simp add: slots_from_Nil)
    next
      case (Inr incs)
      obtain ri fi where incs: "incs = (ri, fi)" by (cases incs)
      from cigar_incs_Inr [OF Inr [unfolded incs]] have fi: "0 \<le> fi" by auto
      note A = run_writes_slots_from [OF assms fi, of s n ri "cigar_len c"]
      show ?thesis
      proof (cases "walk_run start end stride n ri fi (cigar_len c) s")
        case (Inl e)
        with True Inr incs A show ?thesis by simp
      next
        case run: (Inr s1)
        have "slots_from start stride (ref_pos s)
                (run_writes start end stride n ri fi (cigar_len c) s
                 @ cigar_writes start end stride n cs s1)"
        proof (rule slots_append [OF assms(1)])
          show "ref_pos s \<le> ref_pos s1" using walk_run_ref_pos [OF run] fi by simp
          show "slots_from start stride (ref_pos s)
                  (run_writes start end stride n ri fi (cigar_len c) s)" by (rule A)
          show "slots_below start stride (ref_pos s1)
                  (run_writes start end stride n ri fi (cigar_len c) s)"
            by (rule run_writes_slots_below [OF assms fi run])
          show "slots_from start stride (ref_pos s1) (cigar_writes start end stride n cs s1)"
            by (rule Cons.IH)
        qed
        with True Inr incs run show ?thesis by simp
      qed
    qed
  qed
qed

lemma anchor_writes_distinct:
  "0 < stride \<Longrightarrow> distinct (map fst (anchor_writes record start end stride))"
  using cigar_writes_slots_from [of stride "end" start]
  by (auto simp: anchor_writes_def Let_def slots_from_def)

text \<open>
  C10. For a region with \<open>start \<le> end\<close> and a positive stride, the entries of the
  walker's output other than the unmapped marker \<open>- 1\<close> are non-negative and do not
  decrease with the slot; the output is the replay of the walk's writes on the vector
  of markers, and no slot is written twice.
\<close>

theorem walker_anchors_monotone:
  assumes "start \<le> end" and "0 < stride"
    and "match_read_to_reference_anchors record start end stride = Inr v"
  shows "(\<forall>i < length v. v ! i \<noteq> - 1 \<longrightarrow> 0 \<le> v ! i)
       \<and> (\<forall>i j. i < j \<and> j < length v \<and> v ! i \<noteq> - 1 \<and> v ! j \<noteq> - 1 \<longrightarrow> v ! i \<le> v ! j)
       \<and> v = apply_writes (replicate (length v) (- 1)) (anchor_writes record start end stride)
       \<and> distinct (map fst (anchor_writes record start end stride))"
proof -
  let ?n = "uint32_of_int (c_div (end - start) stride + 1)"
  let ?s0 = "\<lparr>out = replicate ?n (- 1), read_pos = 0, ref_pos = pos record\<rparr>"
  from assms(3) have ok: "int_ok (end - start)" "int_ok (c_div (end - start) stride + 1)"
    "stride \<noteq> 0"
    by (simp_all add: match_read_to_reference_anchors_def split: if_splits)
  from assms(3) obtain s where
    s: "walk_cigar start end stride ?n (cigar record) ?s0 = Inr s"
    and v: "v = out s"
    by (auto simp: match_read_to_reference_anchors_def Let_def split: if_splits sum.splits)
  from walk_cigar_inv [OF assms(2) ok(1) walk_inv_init s]
  have inv: "walk_inv start stride s" .
  from walk_cigar_length [OF s] have len: "length v = ?n" by (simp add: v)
  have aw: "anchor_writes record start end stride
              = cigar_writes start end stride ?n (cigar record) ?s0"
    using ok by (simp add: anchor_writes_def Let_def)
  from walk_cigar_writes [OF s]
  have e: "out s = apply_writes (replicate ?n (- 1))
                     (cigar_writes start end stride ?n (cigar record) ?s0)"
    by simp
  from walk_cigar_length [OF s] have len': "length (out s) = ?n" by simp
  have "v = apply_writes (replicate (length v) (- 1)) (anchor_writes record start end stride)"
    unfolding v len' aw by (rule e)
  moreover from inv have "\<forall>i < length v. v ! i \<noteq> - 1 \<longrightarrow> 0 \<le> v ! i"
    by (simp add: walk_inv_def v)
  moreover from inv have
    "\<forall>i j. i < j \<and> j < length v \<and> v ! i \<noteq> - 1 \<and> v ! j \<noteq> - 1 \<longrightarrow> v ! i \<le> v ! j"
    by (simp add: walk_inv_def v)
  ultimately show ?thesis using anchor_writes_distinct [OF assms(2)] by blast
qed

theorem walker_anchors_monotone_witness:
  "match_read_to_reference_anchors
     \<lparr>qname = ''read2'', pos = 990, is_rev = False, cigar = [0x1E0, 0xA2, 0x500]\<rparr>
     1000 1100 50 = Inr [10, 50, 100]
   \<and> anchor_writes
     \<lparr>qname = ''read2'', pos = 990, is_rev = False, cigar = [0x1E0, 0xA2, 0x500]\<rparr>
     1000 1100 50 = [(0, 10), (1, 50), (2, 100)]
   \<and> 0 \<le> [10, 50, 100 :: int] ! 0
   \<and> [10, 50, 100 :: int] ! 0 \<le> [10, 50, 100] ! 2
   \<and> [10, 50, 100] = apply_writes (replicate (length [10, 50, 100 :: int]) (- 1))
        (anchor_writes
          \<lparr>qname = ''read2'', pos = 990, is_rev = False, cigar = [0x1E0, 0xA2, 0x500]\<rparr>
          1000 1100 50)
   \<and> distinct (map fst (anchor_writes
     \<lparr>qname = ''read2'', pos = 990, is_rev = False, cigar = [0x1E0, 0xA2, 0x500]\<rparr>
     1000 1100 50))"
proof -
  have run: "match_read_to_reference_anchors
     \<lparr>qname = ''read2'', pos = 990, is_rev = False, cigar = [0x1E0, 0xA2, 0x500]\<rparr>
     1000 1100 50 = Inr [10, 50, 100]"
    by code_simp
  have ws: "anchor_writes
     \<lparr>qname = ''read2'', pos = 990, is_rev = False, cigar = [0x1E0, 0xA2, 0x500]\<rparr>
     1000 1100 50 = [(0, 10), (1, 50), (2, 100)]"
    by code_simp
  have "(1000::int) \<le> 1100" and "(0::int) < 50" by simp_all
  note c = walker_anchors_monotone [OF this run]
  from c have "[10, 50, 100] = apply_writes (replicate (length [10, 50, 100 :: int]) (- 1))
        (anchor_writes
          \<lparr>qname = ''read2'', pos = 990, is_rev = False, cigar = [0x1E0, 0xA2, 0x500]\<rparr>
          1000 1100 50)"
    and "distinct (map fst (anchor_writes
     \<lparr>qname = ''read2'', pos = 990, is_rev = False, cigar = [0x1E0, 0xA2, 0x500]\<rparr>
     1000 1100 50))"
    by blast+
  moreover have "0 \<le> [10, 50, 100 :: int] ! 0" and "[10, 50, 100 :: int] ! 0 \<le> [10, 50, 100] ! 2"
    by simp_all
  ultimately show ?thesis using run ws by blast
qed

subsection \<open>The walk returns\<close>

lemma walk_unit_returns:
  assumes "start \<le> end" "0 < stride" "int_ok (end - start)"
    and n: "n = nat ((end - start) div stride + 1)"
    and "int_ok (read_pos s + ri)" "int_ok (ref_pos s + fi)"
  shows "\<exists>s'. walk_unit start end stride n ri fi s = Inr s'"
proof (cases "at_anchor start end stride fi (ref_pos s)")
  case False
  with assms(5,6) show ?thesis by (simp add: walk_unit_def)
next
  case True
  note sl = at_anchor_slot [OF assms(2,3) True]
  from True have rp: "start \<le> ref_pos s" "ref_pos s \<le> end" by (simp_all add: at_anchor_def)
  then have "(ref_pos s - start) div stride \<le> (end - start) div stride"
    using assms(2) by (intro zdiv_mono1) simp_all
  moreover have "0 \<le> (ref_pos s - start) div stride"
    using rp assms(2) by (simp add: pos_imp_zdiv_nonneg_iff)
  ultimately have "nat ((ref_pos s - start) div stride) < n" unfolding n by linarith
  with sl(1) assms(5,6) show ?thesis by (simp add: walk_unit_def)
qed

lemma walk_run_returns:
  assumes "start \<le> end" "0 < stride" "int_ok (end - start)"
    and n: "n = nat ((end - start) div stride + 1)"
    and incs: "ri = 0 \<or> ri = 1" "fi = 0 \<or> fi = 1"
  shows "0 \<le> read_pos s \<Longrightarrow> read_pos s + int k < 2 ^ 31
    \<Longrightarrow> - (2 ^ 31) \<le> ref_pos s \<Longrightarrow> ref_pos s + int k < 2 ^ 31
    \<Longrightarrow> \<exists>s'. walk_run start end stride n ri fi k s = Inr s'
           \<and> read_pos s \<le> read_pos s' \<and> read_pos s' \<le> read_pos s + int k
           \<and> ref_pos s \<le> ref_pos s' \<and> ref_pos s' \<le> ref_pos s + int k"
proof (induction k arbitrary: s)
  case 0
  then show ?case by simp
next
  case (Suc k)
  from Suc.prems incs have "int_ok (read_pos s + ri)" "int_ok (ref_pos s + fi)"
    by (auto simp: int_ok_def)
  from walk_unit_returns [OF assms(1-4) this] obtain s1 where
    u: "walk_unit start end stride n ri fi s = Inr s1" by blast
  note s1 = walk_unit_Inr(1,2) [OF u]
  from Suc.prems incs s1 have "0 \<le> read_pos s1" "read_pos s1 + int k < 2 ^ 31"
    "- (2 ^ 31) \<le> ref_pos s1" "ref_pos s1 + int k < 2 ^ 31"
    by auto
  from Suc.IH [OF this] obtain s' where
    "walk_run start end stride n ri fi k s1 = Inr s'"
    "read_pos s1 \<le> read_pos s'" "read_pos s' \<le> read_pos s1 + int k"
    "ref_pos s1 \<le> ref_pos s'" "ref_pos s' \<le> ref_pos s1 + int k"
    by blast
  with u s1 incs show ?case by auto
qed

lemma walk_cigar_returns:
  assumes "start \<le> end" "0 < stride" "int_ok (end - start)"
    and n: "n = nat ((end - start) div stride + 1)"
  shows "\<forall>c \<in> set cs. \<exists>incs. cigar_incs (cigar_op c) = Inr incs
    \<Longrightarrow> 0 \<le> read_pos s \<Longrightarrow> read_pos s + int (sum_list (map cigar_len cs)) < 2 ^ 31
    \<Longrightarrow> - (2 ^ 31) \<le> ref_pos s \<Longrightarrow> ref_pos s + int (sum_list (map cigar_len cs)) < 2 ^ 31
    \<Longrightarrow> \<exists>s'. walk_cigar start end stride n cs s = Inr s'"
proof (induction cs arbitrary: s)
  case Nil
  then show ?case by simp
next
  case (Cons c cs)
  show ?case
  proof (cases "ref_pos s \<le> end")
    case False
    then show ?thesis by simp
  next
    case True
    from Cons.prems(1) obtain ri fi where incs: "cigar_incs (cigar_op c) = Inr (ri, fi)"
      by fastforce
    note b = cigar_incs_Inr [OF incs]
    from Cons.prems have "0 \<le> read_pos s" "read_pos s + int (cigar_len c) < 2 ^ 31"
      "- (2 ^ 31) \<le> ref_pos s" "ref_pos s + int (cigar_len c) < 2 ^ 31"
      by simp_all
    from walk_run_returns [OF assms b [THEN conjunct1] b [THEN conjunct2] this]
    obtain s1 where r: "walk_run start end stride n ri fi (cigar_len c) s = Inr s1"
      and p: "read_pos s \<le> read_pos s1" "read_pos s1 \<le> read_pos s + int (cigar_len c)"
        "ref_pos s \<le> ref_pos s1" "ref_pos s1 \<le> ref_pos s + int (cigar_len c)"
      by blast
    from Cons.prems p have "\<forall>c \<in> set cs. \<exists>incs. cigar_incs (cigar_op c) = Inr incs"
      "0 \<le> read_pos s1" "read_pos s1 + int (sum_list (map cigar_len cs)) < 2 ^ 31"
      "- (2 ^ 31) \<le> ref_pos s1" "ref_pos s1 + int (sum_list (map cigar_len cs)) < 2 ^ 31"
      by simp_all
    from Cons.IH [OF this] obtain s' where "walk_cigar start end stride n cs s1 = Inr s'"
      by blast
    with True incs r show ?thesis by simp
  qed
qed

text \<open>
  The walker has an output for every record whose operations are among the handled
  ones and whose cursors stay within the range of \<^verbatim>\<open>int\<close>.
\<close>

lemma match_read_returns:
  assumes "start \<le> end" "0 < stride" "end - start < 2 ^ 31 - 1"
    and "\<forall>c \<in> set (cigar record). \<exists>incs. cigar_incs (cigar_op c) = Inr incs"
    and "- (2 ^ 31) \<le> pos record"
    and "pos record + int (sum_list (map cigar_len (cigar record))) < 2 ^ 31"
    and "int (sum_list (map cigar_len (cigar record))) < 2 ^ 31"
  shows "\<exists>v. match_read_to_reference_anchors record start end stride = Inr v"
proof -
  from assms(1,3) have ok: "int_ok (end - start)" by (simp add: int_ok_def)
  have "(end - start) div stride \<le> end - start"
    using assms(1,2) by (simp add: int_div_le_self)
  moreover have "0 \<le> (end - start) div stride"
    using assms(1,2) by (simp add: pos_imp_zdiv_nonneg_iff)
  ultimately have ok2: "int_ok (c_div (end - start) stride + 1)"
    using assms(1,2,3) by (simp add: c_div_nonneg int_ok_def)
  let ?n = "uint32_of_int (c_div (end - start) stride + 1)"
  let ?s0 = "\<lparr>out = replicate ?n (- 1), read_pos = 0, ref_pos = pos record\<rparr>"
  have n: "?n = nat ((end - start) div stride + 1)"
    by (rule num_anchors_valid [OF assms(1,2) ok])
  have "\<exists>s'. walk_cigar start end stride ?n (cigar record) ?s0 = Inr s'"
    by (rule walk_cigar_returns [OF assms(1,2) ok n assms(4)]) (use assms(5-7) in simp_all)
  then obtain s' where "walk_cigar start end stride ?n (cigar record) ?s0 = Inr s'" by blast
  with assms(2) ok ok2 show ?thesis
    by (simp add: match_read_to_reference_anchors_def Let_def)
qed

subsection \<open>Which unit steps record\<close>

lemma at_anchor_iff:
  "0 < stride \<Longrightarrow>
     at_anchor start end stride ref_inc rp
       \<longleftrightarrow> start \<le> rp \<and> rp \<le> end \<and> stride dvd rp \<and> 0 < ref_inc"
  by (auto simp: at_anchor_def c_mod_eq_0_iff)

lemma walk_unit_out:
  "walk_unit start end stride n ri fi s = Inr s' \<Longrightarrow>
     out s' = (if at_anchor start end stride fi (ref_pos s)
               then (out s)[uint32_of_int (c_div (ref_pos s - start) stride) := read_pos s]
               else out s)"
  by (auto simp: walk_unit_def split: if_splits)

lemma at_anchor_aligned_start:
  assumes "0 < stride" "stride dvd start"
  shows "at_anchor start end stride ref_inc rp
           \<longleftrightarrow> start \<le> rp \<and> rp \<le> end \<and> (rp - start) mod stride = 0 \<and> 0 < ref_inc"
proof -
  from assms(2) have "stride dvd rp \<longleftrightarrow> stride dvd rp - start"
    by (simp add: dvd_diff_left_iff)
  with assms(1) show ?thesis
    by (simp add: at_anchor_def c_mod_eq_0_iff dvd_eq_mod_eq_0)
qed

text \<open>
  C1. The walk records at the reference positions that are multiples of the stride
  themselves, not at those whose distance from \<open>start\<close> is one. In the region from 1 to
  3 with stride 2, a record at position 1 with three aligned bases is not recorded at
  the reference positions 1 and 3, whose distances 0 and 2 from \<open>start\<close> are multiples
  of the stride, and is recorded at position 2, whose distance is not: the unit step at
  reference position 1 writes nothing, the one at position 2 writes read position 1
  into slot 0, and the output is \<open>[1, - 1]\<close>.
\<close>

theorem walker_records_at_absolute_multiples:
  "walk_unit 1 3 2 2 1 1 \<lparr>out = [- 1, - 1], read_pos = 0, ref_pos = 1\<rparr>
     = Inr \<lparr>out = [- 1, - 1], read_pos = 1, ref_pos = 2\<rparr>
   \<and> walk_unit 1 3 2 2 1 1 \<lparr>out = [- 1, - 1], read_pos = 1, ref_pos = 2\<rparr>
     = Inr \<lparr>out = [1, - 1], read_pos = 2, ref_pos = 3\<rparr>
   \<and> walk_unit 1 3 2 2 1 1 \<lparr>out = [1, - 1], read_pos = 2, ref_pos = 3\<rparr>
     = Inr \<lparr>out = [1, - 1], read_pos = 3, ref_pos = 4\<rparr>
   \<and> match_read_to_reference_anchors
       \<lparr>qname = ''read3'', pos = 1, is_rev = False, cigar = [0x30]\<rparr> 1 3 2
     = Inr [1, - 1]"
proof -
  have "match_read_to_reference_anchors
       \<lparr>qname = ''read3'', pos = 1, is_rev = False, cigar = [0x30]\<rparr> 1 3 2
     = Inr [1, - 1]"
    by code_simp
  then show ?thesis
    by (simp add: walk_unit_def at_anchor_def c_mod_def c_div_def int_ok_def uint32_of_int_def)
qed

subsection \<open>A region without reads\<close>

lemma load_read_reads:
  "load_read env start end stride rs (rds, ras, subs) = Inr (rds', ras', subs')
    \<Longrightarrow> rds' = rds @ [snd rs] \<and> length ras' = Suc (length ras)"
  by (auto simp: load_read_def split: prod.splits sum.splits)

lemma load_reads_reads:
  "load_reads env start end stride rss (rds, ras, subs) = Inr (rds', ras', subs')
    \<Longrightarrow> rds' = rds @ map snd rss \<and> length ras' = length ras + length rss"
proof (induction rss arbitrary: rds ras subs)
  case Nil
  then show ?case by simp
next
  case (Cons rs rss)
  from Cons.prems obtain rds1 ras1 subs1 where
    one: "load_read env start end stride rs (rds, ras, subs) = Inr (rds1, ras1, subs1)"
    and rest: "load_reads env start end stride rss (rds1, ras1, subs1) = Inr (rds', ras', subs')"
    by (auto split: sum.splits)
  from load_read_reads [OF one] Cons.IH [OF rest] show ?case by simp
qed

lemma build_input_for_region_Inr:
  assumes "build_input_for_region env records ref_segment start end stride = Inr ret"
  obtains rds read_anchors read_substrings where
    "load_reads env start end stride records ([], [], []) = Inr (rds, read_anchors, read_substrings)"
    "read_anchors \<noteq> []"
    "build_columns env read_anchors read_substrings ref_segment stride
       (length (strand_anchors (hd read_anchors) T_IDX))
       [0..<length (strand_anchors (hd read_anchors) T_IDX)] = Inr (anchored_columns ret)"
    "reads ret = rds"
  using assms
  by (auto simp: build_input_for_region_def Let_def split: sum.splits prod.splits if_splits)

text \<open>
  C8. With no alignment record in the region the builder fails the assertion that
  \<^verbatim>\<open>read_anchors\<close> is not empty, and a result of the builder never has an empty list of
  reads: its reads are those of the records, of which there is at least one.
\<close>

theorem build_input_for_region_no_reads:
  "build_input_for_region env [] ref_segment start end stride = Inl NoReadsAssertion
   \<and> (\<forall>ret. build_input_for_region env records ref_segment start end stride = Inr ret
        \<longrightarrow> records \<noteq> [] \<and> reads ret = map snd records \<and> reads ret \<noteq> [])"
proof -
  have "build_input_for_region env [] ref_segment start end stride = Inl NoReadsAssertion"
    by (simp add: build_input_for_region_def)
  moreover have "records \<noteq> [] \<and> reads ret = map snd records \<and> reads ret \<noteq> []"
    if "build_input_for_region env records ref_segment start end stride = Inr ret" for ret
  proof -
    from that obtain rds ras subs where
      l: "load_reads env start end stride records ([], [], []) = Inr (rds, ras, subs)"
      and ne: "ras \<noteq> []" and r: "reads ret = rds"
      by (rule build_input_for_region_Inr)
    from load_reads_reads [OF l] ne r show ?thesis by auto
  qed
  ultimately show ?thesis by blast
qed

subsection \<open>The loop over the anchors of a read\<close>

lemma row_resize:
  "row (t @ replicate k []) j = row t j"
  by (auto simp: row_def nth_append)

lemma row_update:
  "i < length t \<Longrightarrow> row (t[i := x]) j = (if j = i then x else row t j)"
  by (auto simp: row_def)

lemma anchor_step_rows:
  assumes "anchor_step env sr rc' rb ai (ea, subs) = Inr (ea', subs')"
  shows "row subs' j = row subs j @ (if j = ai then emitted env sr rc' rb ai else [])"
proof (cases "ai < length rb - 1 \<and> rb ! ai \<noteq> - 1")
  case False
  with assms have "subs' = subs"
    by (auto simp: anchor_step_def Let_def split: if_splits sum.splits)
  with False show ?thesis by (auto simp: emitted_def)
next
  case True
  with assms obtain s where s: "alt_sequence env sr rc' (rb ! ai) (rb ! (ai + 1)) = Inr s"
    by (auto simp: anchor_step_def Let_def split: if_splits sum.splits)
  let ?r = "if ai \<ge> length subs then subs @ replicate (ai + 1 - length subs) [] else subs"
  from assms True s have subs': "subs' = ?r[ai := ?r ! ai @ [s]]"
    by (auto simp: anchor_step_def Let_def split: if_splits sum.splits)
  have len: "ai < length ?r" by simp
  have r: "row ?r k = row subs k" for k by (simp add: row_resize)
  have "?r ! ai = row ?r ai" using len by (simp only: row_def if_True)
  then have rai: "?r ! ai = row subs ai" by (simp only: r)
  from True s have em: "emitted env sr rc' rb ai = [s]" by (simp add: emitted_def)
  show ?thesis
    unfolding subs' row_update [OF len] rai em using r by simp
qed

lemma anchor_step_length:
  assumes "anchor_step env sr rc' rb ai (ea, subs) = Inr (ea', subs')"
  shows "length subs' = (if emitted env sr rc' rb ai = [] then length subs
                         else max (length subs) (Suc ai))"
proof (cases "ai < length rb - 1 \<and> rb ! ai \<noteq> - 1")
  case False
  with assms have "subs' = subs"
    by (auto simp: anchor_step_def Let_def split: if_splits sum.splits)
  with False show ?thesis by (auto simp: emitted_def)
next
  case True
  with assms obtain s where s: "alt_sequence env sr rc' (rb ! ai) (rb ! (ai + 1)) = Inr s"
    by (auto simp: anchor_step_def Let_def split: if_splits sum.splits)
  let ?r = "if ai \<ge> length subs then subs @ replicate (ai + 1 - length subs) [] else subs"
  from assms True s have subs': "subs' = ?r[ai := ?r ! ai @ [s]]"
    by (auto simp: anchor_step_def Let_def split: if_splits sum.splits)
  from True s have em: "emitted env sr rc' rb ai = [s]" by (simp add: emitted_def)
  show ?thesis unfolding subs' em by auto
qed

lemma anchor_step_anchors:
  assumes "anchor_step env sr rc' rb ai (ea, subs) = Inr (ea', subs')"
  shows "strand_anchors ea' st =
           (if rb ! ai \<noteq> - 1
            then (strand_anchors ea st)[ai := event_anchor sr rc' (rb ! ai) st]
            else strand_anchors ea st)"
  using assms
  by (cases st) (auto simp: anchor_step_def Let_def event_anchor_def split: if_splits sum.splits)


lemma anchor_loop_rows:
  "distinct ais \<Longrightarrow> anchor_loop env sr rc' rb ais (ea, subs) = Inr (ea', subs')
    \<Longrightarrow> row subs' j = row subs j @ (if j \<in> set ais then emitted env sr rc' rb j else [])"
proof (induction ais arbitrary: ea subs)
  case Nil
  then show ?case by simp
next
  case (Cons ai ais)
  from Cons.prems(2) obtain ea1 subs1 where
    one: "anchor_step env sr rc' rb ai (ea, subs) = Inr (ea1, subs1)"
    and rest: "anchor_loop env sr rc' rb ais (ea1, subs1) = Inr (ea', subs')"
    by (auto split: sum.splits)
  from Cons.prems(1) have d: "distinct ais" "ai \<notin> set ais" by simp_all
  from Cons.IH [OF d(1) rest] anchor_step_rows [OF one, of j] d(2)
  show ?case by auto
qed

lemma anchor_loop_length:
  "anchor_loop env sr rc' rb ais (ea, subs) = Inr (ea', subs')
    \<Longrightarrow> n < length subs' \<longleftrightarrow>
          n < length subs \<or> (\<exists>i \<in> set ais. emitted env sr rc' rb i \<noteq> [] \<and> n \<le> i)"
proof (induction ais arbitrary: ea subs)
  case Nil
  then show ?case by simp
next
  case (Cons ai ais)
  from Cons.prems obtain ea1 subs1 where
    one: "anchor_step env sr rc' rb ai (ea, subs) = Inr (ea1, subs1)"
    and rest: "anchor_loop env sr rc' rb ais (ea1, subs1) = Inr (ea', subs')"
    by (auto split: sum.splits)
  from anchor_step_length [OF one]
  have "n < length subs1 \<longleftrightarrow> n < length subs \<or> (emitted env sr rc' rb ai \<noteq> [] \<and> n \<le> ai)"
    by auto
  with Cons.IH [OF rest] show ?case by auto
qed

lemma anchor_loop_anchors_length:
  "anchor_loop env sr rc' rb ais (ea, subs) = Inr (ea', subs')
    \<Longrightarrow> length (strand_anchors ea' st) = length (strand_anchors ea st)"
proof (induction ais arbitrary: ea subs)
  case Nil
  then show ?case by simp
next
  case (Cons ai ais)
  from Cons.prems obtain ea1 subs1 where
    one: "anchor_step env sr rc' rb ai (ea, subs) = Inr (ea1, subs1)"
    and rest: "anchor_loop env sr rc' rb ais (ea1, subs1) = Inr (ea', subs')"
    by (auto split: sum.splits)
  from Cons.IH [OF rest] anchor_step_anchors [OF one, of st] show ?case by simp
qed

lemma anchor_loop_anchors:
  "anchor_loop env sr rc' rb ais (ea, subs) = Inr (ea', subs')
    \<Longrightarrow> j < length (strand_anchors ea st)
    \<Longrightarrow> strand_anchors ea' st ! j =
          (if j \<in> set ais \<and> rb ! j \<noteq> - 1 then event_anchor sr rc' (rb ! j) st
           else strand_anchors ea st ! j)"
proof (induction ais arbitrary: ea subs)
  case Nil
  then show ?case by simp
next
  case (Cons ai ais)
  from Cons.prems(1) obtain ea1 subs1 where
    one: "anchor_step env sr rc' rb ai (ea, subs) = Inr (ea1, subs1)"
    and rest: "anchor_loop env sr rc' rb ais (ea1, subs1) = Inr (ea', subs')"
    by (auto split: sum.splits)
  note st = anchor_step_anchors [OF one, of st]
  from st Cons.prems(2) have len: "j < length (strand_anchors ea1 st)" by simp
  from Cons.IH [OF rest len] st Cons.prems(2) show ?case
    by (cases "j = ai") auto
qed

subsection \<open>The loop over the records\<close>

lemma load_read_Inr:
  assumes "load_read env start end stride (record, sr) (rds, ras, subs) = Inr (rds', ras', subs')"
  obtains rb ea where
    "match_read_to_reference_anchors record start end stride = Inr rb"
    "anchor_loop env sr (is_rev record) rb [0..<length rb]
       (\<lparr>strand_anchors = (\<lambda>_. replicate (length rb) (unset_anchor env))\<rparr>, subs) = Inr (ea, subs')"
    "rds' = rds @ [sr]" "ras' = ras @ [ea]"
  using assms by (auto simp: load_read_def split: sum.splits prod.splits)

lemma read_bases_Inr:
  "match_read_to_reference_anchors record start end stride = Inr rb
    \<Longrightarrow> read_bases start end stride record = rb"
  by (simp add: read_bases_def)

lemma match_read_length:
  assumes "match_read_to_reference_anchors record start end stride = Inr v"
  shows "length v = uint32_of_int (c_div (end - start) stride + 1)"
proof -
  let ?n = "uint32_of_int (c_div (end - start) stride + 1)"
  from assms obtain s where
    s: "walk_cigar start end stride ?n (cigar record)
          \<lparr>out = replicate ?n (- 1), read_pos = 0, ref_pos = pos record\<rparr> = Inr s"
    and v: "v = out s"
    by (auto simp: match_read_to_reference_anchors_def Let_def split: if_splits sum.splits)
  from walk_cigar_length [OF s] show ?thesis by (simp add: v)
qed


lemma emitted_bound: "emitted env sr rc' rb i \<noteq> [] \<Longrightarrow> i < length rb - 1"
  by (auto simp: emitted_def split: if_splits)

lemma load_read_char:
  assumes "load_read env start end stride rs (rds, ras, subs) = Inr (rds', ras', subs')"
  shows "\<exists>ea. rds' = rds @ [snd rs] \<and> ras' = ras @ [ea] \<and> anchors_of env start end stride rs ea"
    and "row subs' j = row subs j @ read_emitted env start end stride j rs"
    and "n < length subs' \<longleftrightarrow>
           n < length subs \<or> (\<exists>i. read_emitted env start end stride i rs \<noteq> [] \<and> n \<le> i)"
proof -
  obtain bam sr where rs: "rs = (bam, sr)" by (cases rs)
  from assms [unfolded rs] obtain rb ea where
    m: "match_read_to_reference_anchors bam start end stride = Inr rb"
    and l: "anchor_loop env sr (is_rev bam) rb [0..<length rb]
       (\<lparr>strand_anchors = (\<lambda>_. replicate (length rb) (unset_anchor env))\<rparr>, subs) = Inr (ea, subs')"
    and r: "rds' = rds @ [sr]" "ras' = ras @ [ea]"
    by (rule load_read_Inr)
  note rb = read_bases_Inr [OF m]
  have "strand_anchors ea st = read_anchor_list env sr (is_rev bam) rb st" for st
  proof (rule nth_equalityI)
    from anchor_loop_anchors_length [OF l, of st]
    show len: "length (strand_anchors ea st) = length (read_anchor_list env sr (is_rev bam) rb st)"
      by (simp add: read_anchor_list_def)
    fix j assume "j < length (strand_anchors ea st)"
    with len have j: "j < length rb" by (simp add: read_anchor_list_def)
    with anchor_loop_anchors [OF l, of j st]
    show "strand_anchors ea st ! j = read_anchor_list env sr (is_rev bam) rb st ! j"
      by (simp add: read_anchor_list_def)
  qed
  with m r show "\<exists>ea. rds' = rds @ [snd rs] \<and> ras' = ras @ [ea] \<and> anchors_of env start end stride rs ea"
    by (simp add: anchors_of_def rs rb)
  have em: "emitted env sr (is_rev bam) rb i = [] " if "\<not> i < length rb" for i
  proof -
    from that have "\<not> i < length rb - 1" by arith
    then show ?thesis by (simp add: emitted_def)
  qed
  from anchor_loop_rows [OF _ l, of j] em [of j]
  show "row subs' j = row subs j @ read_emitted env start end stride j rs"
    by (auto simp: read_emitted_def rs rb)
  from anchor_loop_length [OF l, of n] em
  show "n < length subs' \<longleftrightarrow>
           n < length subs \<or> (\<exists>i. read_emitted env start end stride i rs \<noteq> [] \<and> n \<le> i)"
    unfolding read_emitted_def rs fst_conv snd_conv rb
    by (metis atLeastLessThan_iff set_upt zero_le)
qed

lemma load_reads_char:
  "load_reads env start end stride rss (rds, ras, subs) = Inr (rds', ras', subs') \<Longrightarrow>
     (\<exists>eas. ras' = ras @ eas \<and> list_all2 (anchors_of env start end stride) rss eas)
     \<and> rds' = rds @ map snd rss
     \<and> row subs' j = row subs j @ concat (map (read_emitted env start end stride j) rss)
     \<and> (n < length subs' \<longleftrightarrow>
           n < length subs
           \<or> (\<exists>rs \<in> set rss. \<exists>i. read_emitted env start end stride i rs \<noteq> [] \<and> n \<le> i))"
proof (induction rss arbitrary: rds ras subs)
  case Nil
  then show ?case by simp
next
  case (Cons rs rss)
  from Cons.prems obtain rds1 ras1 subs1 where
    one: "load_read env start end stride rs (rds, ras, subs) = Inr (rds1, ras1, subs1)"
    and rest: "load_reads env start end stride rss (rds1, ras1, subs1) = Inr (rds', ras', subs')"
    by (auto split: sum.splits)
  from load_read_char(1) [OF one] obtain ea where
    ea: "rds1 = rds @ [snd rs]" "ras1 = ras @ [ea]" "anchors_of env start end stride rs ea"
    by blast
  note IH = Cons.IH [OF rest]
  from IH obtain eas where
    eas: "ras' = ras1 @ eas" "list_all2 (anchors_of env start end stride) rss eas"
    by blast
  have 1: "\<exists>eas. ras' = ras @ eas \<and> list_all2 (anchors_of env start end stride) (rs # rss) eas"
    using ea eas by (intro exI [of _ "ea # eas"]) simp
  have 2: "rds' = rds @ map snd (rs # rss)" using IH ea(1) by simp
  have 3: "row subs' j = row subs j @ concat (map (read_emitted env start end stride j) (rs # rss))"
    using IH load_read_char(2) [OF one, of j] by simp
  have 4: "n < length subs' \<longleftrightarrow>
           n < length subs
           \<or> (\<exists>rs \<in> set (rs # rss). \<exists>i. read_emitted env start end stride i rs \<noteq> [] \<and> n \<le> i)"
    using IH load_read_char(3) [OF one, of n] by auto
  from 1 2 3 4 show ?case by blast
qed


subsection \<open>Columns\<close>

lemma column_anchors_Inr:
  "column_anchors ras p = Inr as \<Longrightarrow>
     as = concat (map (\<lambda>r. [strand_anchors r T_IDX ! p, strand_anchors r C_IDX ! p]) ras)"
proof (induction ras arbitrary: as)
  case Nil
  then show ?case by simp
next
  case (Cons r ras)
  from Cons.prems obtain as' where
    "column_anchors ras p = Inr as'"
    "as = strand_anchors r T_IDX ! p # strand_anchors r C_IDX ! p # as'"
    by (auto split: if_splits sum.splits)
  with Cons.IH [of as'] show ?case by simp
qed

lemma column_anchors_length:
  "column_anchors ras p = Inr as \<Longrightarrow> length as = length ras * 2"
  by (induction ras arbitrary: as) (auto split: if_splits sum.splits)

lemma build_columns_Inr:
  "build_columns env ras subs ref_segment stride n ais = Inr cols \<Longrightarrow>
     length cols = length ais
     \<and> (\<forall>k < length ais. build_column env ras subs ref_segment stride n (ais ! k) = Inr (cols ! k))"
proof (induction ais arbitrary: cols)
  case Nil
  then show ?case by simp
next
  case (Cons ai ais)
  from Cons.prems obtain c cs where
    c: "build_column env ras subs ref_segment stride n ai = Inr c"
    and cs: "build_columns env ras subs ref_segment stride n ais = Inr cs"
    and cols: "cols = c # cs"
    by (auto split: sum.splits)
  from Cons.IH [OF cs] c show ?case
    by (auto simp: cols nth_Cons split: nat.splits)
qed

lemma build_columns_upt:
  assumes "build_columns env ras subs ref_segment stride n [0..<n] = Inr cols"
  shows "length cols = n"
    and "p < n \<Longrightarrow> build_column env ras subs ref_segment stride n p = Inr (cols ! p)"
  using build_columns_Inr [OF assms] by auto

lemma build_column_Inr:
  assumes "build_column env ras subs ref_segment stride n p = Inr c"
  shows "anchors c = concat (map (\<lambda>r. [strand_anchors r T_IDX ! p, strand_anchors r C_IDX ! p]) ras)"
    and "p = n - 1 \<Longrightarrow> base_sequence c = [] \<and> alt_sequences c = []"
    and "p \<noteq> n - 1 \<Longrightarrow> column_base_sequence env ref_segment stride p = Inr (base_sequence c)
           \<and> p < length subs \<and> alt_sequences c = row subs p"
  using assms
  by (auto simp: build_column_def row_def dest: column_anchors_Inr split: sum.splits if_splits)

lemma column_base_sequence_Inr:
  assumes "0 < stride" and "column_base_sequence env ref_segment stride p = Inr b"
  shows "b = take (nat (stride + int (K env))) (drop (p * nat stride) ref_segment)"
    and "b \<noteq> []"
proof -
  let ?len = "int (length ref_segment)"
  let ?off = "int p * stride"
  let ?full = "stride + int (K env)"
  let ?trunc = "if ?full < 0 \<or> ?off + ?full > ?len then ?len - ?off else ?full"
  have off: "nat ?off = p * nat stride" using assms(1) by (simp add: nat_mult_distrib)
  from assms(2) have rng: "\<not> (?off < 0 \<or> ?off > ?len)" and nz: "?trunc \<noteq> 0"
    and b: "b = take (nat ?trunc) (drop (nat ?off) ref_segment)"
    by (auto simp: column_base_sequence_def Let_def split: if_splits)
  show "b = take (nat (stride + int (K env))) (drop (p * nat stride) ref_segment)"
  proof (cases "?off + ?full > ?len")
    case True
    then have 1: "length (drop (nat ?off) ref_segment) \<le> nat ?full" using rng by simp
    from True rng have 2: "length (drop (nat ?off) ref_segment) \<le> nat ?trunc" by simp
    have e1: "take (nat ?trunc) (drop (nat ?off) ref_segment) = drop (nat ?off) ref_segment"
      using 2 by (rule take_all)
    have e2: "take (nat ?full) (drop (nat ?off) ref_segment) = drop (nat ?off) ref_segment"
      using 1 by (rule take_all)
    show ?thesis by (simp only: b off [symmetric] e1 e2)
  next
    case False
    with assms(1) show ?thesis unfolding b off [symmetric] by simp
  qed
  from rng nz assms(1) have "0 < nat ?trunc" "nat ?off < length ref_segment"
    by (auto split: if_splits)
  then show "b \<noteq> []" unfolding b by simp
qed

lemma list_all2_map_eq:
  "list_all2 P xs ys \<Longrightarrow> (\<And>x y. P x y \<Longrightarrow> f x = g y) \<Longrightarrow> map f xs = map g ys"
  by (induction rule: list_all2_induct) auto


lemma anchor_step_emits:
  assumes "anchor_step env sr rc' rb ai st = Inr st'" "ai < length rb - 1" "rb ! ai \<noteq> - 1"
  shows "emitted env sr rc' rb ai \<noteq> []"
  using assms
  by (cases st) (auto simp: anchor_step_def emitted_def Let_def split: if_splits sum.splits)

lemma anchor_loop_emits:
  "anchor_loop env sr rc' rb ais st = Inr st' \<Longrightarrow> i \<in> set ais \<Longrightarrow> i < length rb - 1
    \<Longrightarrow> rb ! i \<noteq> - 1 \<Longrightarrow> emitted env sr rc' rb i \<noteq> []"
proof (induction ais arbitrary: st)
  case Nil
  then show ?case by simp
next
  case (Cons ai ais)
  from Cons.prems(1) obtain st1 where
    one: "anchor_step env sr rc' rb ai st = Inr st1"
    and rest: "anchor_loop env sr rc' rb ais st1 = Inr st'"
    by (auto split: sum.splits)
  show ?case
  proof (cases "i = ai")
    case True
    with anchor_step_emits [OF one] Cons.prems(3,4) show ?thesis by simp
  next
    case False
    with Cons.prems(2) have "i \<in> set ais" by simp
    from Cons.IH [OF rest this Cons.prems(3,4)] show ?thesis .
  qed
qed

lemma load_read_emits:
  assumes "load_read env start end stride rs st = Inr st'"
    and "i < length (read_bases start end stride (fst rs)) - 1"
    and "read_bases start end stride (fst rs) ! i \<noteq> - 1"
  shows "read_emitted env start end stride i rs \<noteq> []"
proof -
  obtain bam sr where rs: "rs = (bam, sr)" by (cases rs)
  obtain rds ras subs where st: "st = (rds, ras, subs)" by (cases st)
  obtain rds' ras' subs' where st': "st' = (rds', ras', subs')" by (cases st')
  from assms(1) [unfolded rs st st'] obtain rb ea where
    m: "match_read_to_reference_anchors bam start end stride = Inr rb"
    and l: "anchor_loop env sr (is_rev bam) rb [0..<length rb]
       (\<lparr>strand_anchors = (\<lambda>_. replicate (length rb) (unset_anchor env))\<rparr>, subs) = Inr (ea, subs')"
    by (rule load_read_Inr)
  note rb = read_bases_Inr [OF m]
  from assms(2,3) have "i \<in> set [0..<length rb]" "i < length rb - 1" "rb ! i \<noteq> - 1"
    by (simp_all add: rs rb)
  from anchor_loop_emits [OF l this] show ?thesis
    by (simp add: read_emitted_def rs rb)
qed

lemma load_reads_emits:
  "load_reads env start end stride rss st = Inr st' \<Longrightarrow> rs \<in> set rss
    \<Longrightarrow> i < length (read_bases start end stride (fst rs)) - 1
    \<Longrightarrow> read_bases start end stride (fst rs) ! i \<noteq> - 1
    \<Longrightarrow> read_emitted env start end stride i rs \<noteq> []"
proof (induction rss arbitrary: st)
  case Nil
  then show ?case by simp
next
  case (Cons r rss)
  from Cons.prems(1) obtain st1 where
    one: "load_read env start end stride r st = Inr st1"
    and rest: "load_reads env start end stride rss st1 = Inr st'"
    by (auto split: sum.splits)
  show ?case
  proof (cases "rs = r")
    case True
    with load_read_emits [OF one] Cons.prems(3,4) show ?thesis by simp
  next
    case False
    with Cons.prems(2) have "rs \<in> set rss" by simp
    from Cons.IH [OF rest this Cons.prems(3,4)] show ?thesis .
  qed
qed

lemma read_emitted_iff:
  "read_emitted env start end stride i rs \<noteq> [] \<Longrightarrow>
     i < length (read_bases start end stride (fst rs)) - 1
     \<and> read_bases start end stride (fst rs) ! i \<noteq> - 1"
  by (auto simp: read_emitted_def emitted_def split: if_splits)

lemma list_all2_set1: "list_all2 P xs ys \<Longrightarrow> x \<in> set xs \<Longrightarrow> \<exists>y \<in> set ys. P x y"
  by (induction rule: list_all2_induct) auto

lemma read_anchor_list_length [simp]:
  "length (read_anchor_list env sr rc' rb st) = length rb"
  by (simp add: read_anchor_list_def)

subsection \<open>The result of the builder\<close>

lemma build_input_for_region_char:
  assumes b: "build_input_for_region env records ref_segment start end stride = Inr ret"
  shows "records \<noteq> []" and "reads ret = map snd records"
    and "rs \<in> set records \<Longrightarrow>
           match_read_to_reference_anchors (fst rs) start end stride
             = Inr (read_bases start end stride (fst rs))
           \<and> length (read_bases start end stride (fst rs)) = length (anchored_columns ret)"
    and "p < length (anchored_columns ret) \<Longrightarrow>
           anchors (anchored_columns ret ! p) =
             concat (map (\<lambda>rs.
               [read_anchor_list env (snd rs) (is_rev (fst rs))
                  (read_bases start end stride (fst rs)) T_IDX ! p,
                read_anchor_list env (snd rs) (is_rev (fst rs))
                  (read_bases start end stride (fst rs)) C_IDX ! p]) records)"
    and "p < length (anchored_columns ret) \<Longrightarrow> p \<noteq> length (anchored_columns ret) - 1 \<Longrightarrow>
           column_base_sequence env ref_segment stride p
             = Inr (base_sequence (anchored_columns ret ! p))
           \<and> alt_sequences (anchored_columns ret ! p)
             = concat (map (read_emitted env start end stride p) records)
           \<and> (\<exists>rs \<in> set records. \<exists>i. read_emitted env start end stride i rs \<noteq> [] \<and> p \<le> i)"
    and "p < length (anchored_columns ret) \<Longrightarrow> p = length (anchored_columns ret) - 1 \<Longrightarrow>
           base_sequence (anchored_columns ret ! p) = []
           \<and> alt_sequences (anchored_columns ret ! p) = []"
proof -
  let ?cols = "anchored_columns ret"
  from b obtain rds ras subs where
    l: "load_reads env start end stride records ([], [], []) = Inr (rds, ras, subs)"
    and ne: "ras \<noteq> []"
    and bc: "build_columns env ras subs ref_segment stride
       (length (strand_anchors (hd ras) T_IDX))
       [0..<length (strand_anchors (hd ras) T_IDX)] = Inr ?cols"
    and r: "reads ret = rds"
    by (rule build_input_for_region_Inr)
  let ?n = "length (strand_anchors (hd ras) T_IDX)"
  note ch = load_reads_char [OF l]
  from ch have all2: "list_all2 (anchors_of env start end stride) records ras" by auto
  from ch have rows: "row subs j = concat (map (read_emitted env start end stride j) records)" for j
    using load_reads_char [OF l, of j] by (simp add: row_def)
  from ch have lens: "k < length subs \<longleftrightarrow>
      (\<exists>rs \<in> set records. \<exists>i. read_emitted env start end stride i rs \<noteq> [] \<and> k \<le> i)" for k
    using load_reads_char [OF l, of _ k] by simp
  from all2 ne show rne: "records \<noteq> []" by auto
  from ch r show "reads ret = map snd records" by simp
  note cols = build_columns_upt [OF bc]
  have m: "match_read_to_reference_anchors (fst rs) start end stride
             = Inr (read_bases start end stride (fst rs))" if "rs \<in> set records" for rs
    using list_all2_set1 [OF all2 that] by (auto simp: anchors_of_def)
  have len_all: "length (read_bases start end stride (fst rs))
                   = uint32_of_int (c_div (end - start) stride + 1)" if "rs \<in> set records" for rs
    using match_read_length [OF m [OF that]] .
  from all2 rne ne have "anchors_of env start end stride (hd records) (hd ras)"
    by (cases records; cases ras) auto
  then have "?n = length (read_bases start end stride (fst (hd records)))"
    by (simp add: anchors_of_def)
  with len_all [of "hd records"] rne
  have n: "?n = uint32_of_int (c_div (end - start) stride + 1)" by simp
  show "match_read_to_reference_anchors (fst rs) start end stride
             = Inr (read_bases start end stride (fst rs))
           \<and> length (read_bases start end stride (fst rs)) = length ?cols"
    if "rs \<in> set records"
    using m [OF that] len_all [OF that] n cols(1) by simp
  have amap: "map (\<lambda>r. [strand_anchors r T_IDX ! p, strand_anchors r C_IDX ! p]) ras
      = map (\<lambda>rs.
               [read_anchor_list env (snd rs) (is_rev (fst rs))
                  (read_bases start end stride (fst rs)) T_IDX ! p,
                read_anchor_list env (snd rs) (is_rev (fst rs))
                  (read_bases start end stride (fst rs)) C_IDX ! p]) records"
    by (rule list_all2_map_eq [OF all2, symmetric]) (simp add: anchors_of_def)
  show "anchors (?cols ! p) =
             concat (map (\<lambda>rs.
               [read_anchor_list env (snd rs) (is_rev (fst rs))
                  (read_bases start end stride (fst rs)) T_IDX ! p,
                read_anchor_list env (snd rs) (is_rev (fst rs))
                  (read_bases start end stride (fst rs)) C_IDX ! p]) records)"
    if "p < length ?cols"
  proof -
    from that cols have "build_column env ras subs ref_segment stride ?n p = Inr (?cols ! p)"
      by simp
    from build_column_Inr(1) [OF this] show ?thesis by (simp only: amap)
  qed
  show "column_base_sequence env ref_segment stride p = Inr (base_sequence (?cols ! p))
           \<and> alt_sequences (?cols ! p) = concat (map (read_emitted env start end stride p) records)
           \<and> (\<exists>rs \<in> set records. \<exists>i. read_emitted env start end stride i rs \<noteq> [] \<and> p \<le> i)"
    if "p < length ?cols" "p \<noteq> length ?cols - 1"
  proof -
    from that cols have "build_column env ras subs ref_segment stride ?n p = Inr (?cols ! p)"
      and "p \<noteq> ?n - 1"
      by simp_all
    from build_column_Inr(3) [OF this] rows [of p] lens [of p] show ?thesis by simp
  qed
  show "base_sequence (?cols ! p) = [] \<and> alt_sequences (?cols ! p) = []"
    if "p < length ?cols" "p = length ?cols - 1"
  proof -
    from that cols have "build_column env ras subs ref_segment stride ?n p = Inr (?cols ! p)"
      and "p = ?n - 1"
      by simp_all
    from build_column_Inr(2) [OF this] show ?thesis .
  qed
qed

subsection \<open>The example region\<close>

lemma example_walks:
  "match_read_to_reference_anchors \<lparr>qname = ''read'', pos = 0, is_rev = False, cigar = [0xA0]\<rparr> 0 9 2
     = Inr [0, 2, 4, 6, 8]"
  "match_read_to_reference_anchors \<lparr>qname = ''read'', pos = 2, is_rev = True, cigar = [0x60]\<rparr> 0 9 2
     = Inr [- 1, 0, 2, 4, - 1]"
  by code_simp+

lemma example_build:
  "build_input_for_region example_common example_records ''ACGTACGTAC'' 0 9 2
     = Inr \<lparr>reads = [example_read, example_read], anchored_columns = example_columns\<rparr>"
  by (simp add: build_input_for_region_def load_read_def example_walks anchor_step_def
      alt_sequence_def alt_kidx_def substr_def build_column_def column_base_sequence_def
      example_read_def example_common_def example_records_def example_columns_def
      example_complement_def upt_rec)

subsection \<open>The structure of the columns\<close>

lemma column_base_sequence_nonempty:
  assumes "column_base_sequence env ref_segment stride p = Inr b"
  shows "b \<noteq> []"
proof -
  let ?len = "int (length ref_segment)"
  let ?off = "int p * stride"
  let ?full = "stride + int (K env)"
  let ?trunc = "if ?full < 0 \<or> ?off + ?full > ?len then ?len - ?off else ?full"
  from assms have rng: "\<not> (?off < 0 \<or> ?off > ?len)" and nz: "?trunc \<noteq> 0"
    and b: "b = take (nat ?trunc) (drop (nat ?off) ref_segment)"
    by (auto simp: column_base_sequence_def Let_def split: if_splits)
  from rng nz have "0 < nat ?trunc" "nat ?off < length ref_segment"
    by (auto split: if_splits)
  then show "b \<noteq> []" unfolding b by simp
qed

text \<open>
  C5. A result of the builder has as many columns as the walker's output has entries,
  for every read. The anchors of every column are two for each read, in the order of
  the records, the anchor of the template strand before that of the complement strand.
  The last column has anchors and neither a reference sequence nor alternative
  sequences; every other column has a reference sequence that is not empty.
\<close>

theorem column_structure:
  assumes "build_input_for_region env records ref_segment start end stride = Inr ret"
  shows "(\<forall>rs \<in> set records.
            \<exists>rb. match_read_to_reference_anchors (fst rs) start end stride = Inr rb
               \<and> length rb = length (anchored_columns ret))
       \<and> (\<forall>p < length (anchored_columns ret).
            length (anchors (anchored_columns ret ! p)) = 2 * length records
            \<and> anchors (anchored_columns ret ! p) \<noteq> []
            \<and> anchors (anchored_columns ret ! p) =
                concat (map (\<lambda>rs.
                  [read_anchor_list env (snd rs) (is_rev (fst rs))
                     (read_bases start end stride (fst rs)) T_IDX ! p,
                   read_anchor_list env (snd rs) (is_rev (fst rs))
                     (read_bases start end stride (fst rs)) C_IDX ! p]) records)
            \<and> (if p = length (anchored_columns ret) - 1
                then base_sequence (anchored_columns ret ! p) = []
                   \<and> alt_sequences (anchored_columns ret ! p) = []
                else base_sequence (anchored_columns ret ! p) \<noteq> []))"
proof -
  note ch = build_input_for_region_char [OF assms]
  have len2: "length (concat (map (\<lambda>x. [f x, g x]) xs)) = 2 * length xs" for f g :: "'a \<Rightarrow> 'b" and xs
    by (induction xs) auto
  have 1: "\<forall>rs \<in> set records.
            \<exists>rb. match_read_to_reference_anchors (fst rs) start end stride = Inr rb
               \<and> length rb = length (anchored_columns ret)"
    using ch(3) by blast
  have 2: "length (anchors (anchored_columns ret ! p)) = 2 * length records
            \<and> anchors (anchored_columns ret ! p) \<noteq> []
            \<and> anchors (anchored_columns ret ! p) =
                concat (map (\<lambda>rs.
                  [read_anchor_list env (snd rs) (is_rev (fst rs))
                     (read_bases start end stride (fst rs)) T_IDX ! p,
                   read_anchor_list env (snd rs) (is_rev (fst rs))
                     (read_bases start end stride (fst rs)) C_IDX ! p]) records)
            \<and> (if p = length (anchored_columns ret) - 1
                then base_sequence (anchored_columns ret ! p) = []
                   \<and> alt_sequences (anchored_columns ret ! p) = []
                else base_sequence (anchored_columns ret ! p) \<noteq> [])"
    if p: "p < length (anchored_columns ret)" for p
  proof -
    note a = ch(4) [OF p]
    have l: "length (anchors (anchored_columns ret ! p)) = 2 * length records"
      unfolding a by (rule len2)
    with ch(1) have ne: "anchors (anchored_columns ret ! p) \<noteq> []" by auto
    have s: "if p = length (anchored_columns ret) - 1
                then base_sequence (anchored_columns ret ! p) = []
                   \<and> alt_sequences (anchored_columns ret ! p) = []
                else base_sequence (anchored_columns ret ! p) \<noteq> []"
    proof (cases "p = length (anchored_columns ret) - 1")
      case True
      with ch(6) [OF p] show ?thesis by simp
    next
      case False
      from ch(5) [OF p False]
      have "column_base_sequence env ref_segment stride p
              = Inr (base_sequence (anchored_columns ret ! p))" by blast
      from column_base_sequence_nonempty [OF this] False show ?thesis by simp
    qed
    from l ne a s show ?thesis by blast
  qed
  from 1 2 show ?thesis by blast
qed

theorem column_structure_witness:
  "build_input_for_region example_common example_records ''ACGTACGTAC'' 0 9 2
     = Inr \<lparr>reads = [example_read, example_read], anchored_columns = example_columns\<rparr>
   \<and> length example_columns = 5
   \<and> length (anchors (example_columns ! 1)) = 2 * length example_records
   \<and> anchors (example_columns ! 1) =
        [\<lparr>event_idx = 4, rc = False\<rparr>, \<lparr>event_idx = 96, rc = True\<rparr>,
         \<lparr>event_idx = 10, rc = True\<rparr>, \<lparr>event_idx = 90, rc = False\<rparr>]
   \<and> anchors (example_columns ! 4) \<noteq> []
   \<and> base_sequence (example_columns ! 4) = []
   \<and> alt_sequences (example_columns ! 4) = []
   \<and> base_sequence (example_columns ! 3) \<noteq> []"
proof -
  have len: "length example_columns = 5" by (simp add: example_columns_def)
  note c = column_structure [OF example_build, unfolded HMMRealignmentInput.select_convs len,
      THEN conjunct2, rule_format]
  have "(1::nat) < 5" and "(3::nat) < 5" and "(4::nat) < 5" by simp_all
  note c1 = c [OF this(1)] and c3 = c [OF this(2)] and c4 = c [OF this(3)]
  from c1 have "length (anchors (example_columns ! 1)) = 2 * length example_records"
    by blast
  moreover from c4 have "anchors (example_columns ! 4) \<noteq> []"
    by blast
  moreover from c4 have "if (4::nat) = 5 - 1
      then base_sequence (example_columns ! 4) = [] \<and> alt_sequences (example_columns ! 4) = []
      else base_sequence (example_columns ! 4) \<noteq> []"
    by blast
  then have "base_sequence (example_columns ! 4) = []"
    and "alt_sequences (example_columns ! 4) = []"
    by simp_all
  moreover from c3 have "if (3::nat) = 5 - 1
      then base_sequence (example_columns ! 3) = [] \<and> alt_sequences (example_columns ! 3) = []
      else base_sequence (example_columns ! 3) \<noteq> []"
    by blast
  then have "base_sequence (example_columns ! 3) \<noteq> []"
    by simp
  moreover have "anchors (example_columns ! 1) =
        [\<lparr>event_idx = 4, rc = False\<rparr>, \<lparr>event_idx = 96, rc = True\<rparr>,
         \<lparr>event_idx = 10, rc = True\<rparr>, \<lparr>event_idx = 90, rc = False\<rparr>]"
    by (simp add: example_columns_def)
  ultimately show ?thesis using example_build len by blast
qed

text \<open>The example region has reads, and the builder returns its columns.\<close>

theorem build_input_for_region_no_reads_witness:
  "build_input_for_region example_common [] ''ACGTACGTAC'' 0 9 2 = Inl NoReadsAssertion
   \<and> build_input_for_region example_common example_records ''ACGTACGTAC'' 0 9 2
     = Inr \<lparr>reads = [example_read, example_read], anchored_columns = example_columns\<rparr>
   \<and> example_records \<noteq> []
   \<and> reads \<lparr>reads = [example_read, example_read], anchored_columns = example_columns\<rparr>
     = map snd example_records
   \<and> reads \<lparr>reads = [example_read, example_read], anchored_columns = example_columns\<rparr> \<noteq> []"
proof -
  note c = build_input_for_region_no_reads
    [of example_common "''ACGTACGTAC''" 0 9 2 example_records]
  from c have "build_input_for_region example_common [] ''ACGTACGTAC'' 0 9 2 = Inl NoReadsAssertion"
    by (rule conjunct1)
  moreover from c [THEN conjunct2, rule_format, OF example_build]
  have "example_records \<noteq> []
   \<and> reads \<lparr>reads = [example_read, example_read], anchored_columns = example_columns\<rparr>
     = map snd example_records
   \<and> reads \<lparr>reads = [example_read, example_read], anchored_columns = example_columns\<rparr> \<noteq> []" .
  ultimately show ?thesis using example_build by blast
qed

subsection \<open>The reference sequences of the columns\<close>

lemma drop_take_overlap:
  "drop s (take (s + k) (drop a xs)) = take k (take (s + k) (drop (a + s) xs))"
  by (simp add: drop_take add.commute min_def)

text \<open>
  With a positive stride, the reference sequence of every column but the last is the
  part of the fetched segment that begins at offset \<open>p * stride\<close> and has
  \<open>stride + K\<close> bases, or fewer at the end of the segment. The sequence of a column
  from its base \<open>stride\<close> on is the beginning of the sequence of the next column, and
  where the column is not truncated these are \<open>K\<close> bases.
\<close>

lemma column_base_sequence_overlap:
  assumes "0 < stride"
    and "build_input_for_region env records ref_segment start end stride = Inr ret"
    and "Suc p < length (anchored_columns ret)"
  shows "base_sequence (anchored_columns ret ! p)
           = take (nat stride + K env) (drop (p * nat stride) ref_segment)
       \<and> (Suc (Suc p) < length (anchored_columns ret) \<longrightarrow>
            drop (nat stride) (base_sequence (anchored_columns ret ! p))
              = take (K env) (base_sequence (anchored_columns ret ! Suc p)))
       \<and> (p * nat stride + nat stride + K env \<le> length ref_segment \<longrightarrow>
            length (base_sequence (anchored_columns ret ! p)) = nat stride + K env
            \<and> length (drop (nat stride) (base_sequence (anchored_columns ret ! p))) = K env)"
proof -
  let ?cols = "anchored_columns ret"
  have sk: "nat (stride + int (K env)) = nat stride + K env"
    using assms(1) by (simp add: nat_add_distrib)
  have bs: "base_sequence (?cols ! q) = take (nat stride + K env) (drop (q * nat stride) ref_segment)"
    if "Suc q < length ?cols" for q
  proof -
    from that have "q < length ?cols" "q \<noteq> length ?cols - 1" by simp_all
    from build_input_for_region_char(5) [OF assms(2) this]
    have "column_base_sequence env ref_segment stride q = Inr (base_sequence (?cols ! q))"
      by blast
    from column_base_sequence_Inr(1) [OF assms(1) this] show ?thesis by (simp only: sk)
  qed
  have 1: "base_sequence (?cols ! p) = take (nat stride + K env) (drop (p * nat stride) ref_segment)"
    by (rule bs [OF assms(3)])
  have 2: "drop (nat stride) (base_sequence (?cols ! p)) = take (K env) (base_sequence (?cols ! Suc p))"
    if "Suc (Suc p) < length ?cols"
    unfolding bs [OF that] 1 using drop_take_overlap [of "nat stride" "K env" "p * nat stride" ref_segment]
    by (simp add: add.commute)
  have 3: "length (base_sequence (?cols ! p)) = nat stride + K env
            \<and> length (drop (nat stride) (base_sequence (?cols ! p))) = K env"
    if "p * nat stride + nat stride + K env \<le> length ref_segment"
    unfolding 1 using that by simp
  from 1 2 3 show ?thesis by blast
qed


text \<open>
  C6. The comment of the source asks that the reference sequences of consecutive
  columns overlap by \<open>K - 1\<close> bases; with \<open>stride + K\<close> bases from offset
  \<open>p * stride\<close> they overlap by \<open>K\<close>. In the example region with stride 2 and
  \<open>K = 5\<close> the first two columns are not truncated (seven bases each), the last five
  bases of the first are the first five of the second, and the last four are not the
  first four.
\<close>

theorem consecutive_columns_overlap:
  "build_input_for_region example_common example_records ''ACGTACGTAC'' 0 9 2
     = Inr \<lparr>reads = [example_read, example_read], anchored_columns = example_columns\<rparr>
   \<and> base_sequence (example_columns ! 0) = ''ACGTACG''
   \<and> base_sequence (example_columns ! 1) = ''GTACGTA''
   \<and> length (base_sequence (example_columns ! 0)) = 2 + K example_common
   \<and> length (base_sequence (example_columns ! 1)) = 2 + K example_common
   \<and> drop (length (base_sequence (example_columns ! 0)) - K example_common)
        (base_sequence (example_columns ! 0))
       = take (K example_common) (base_sequence (example_columns ! 1))
   \<and> drop (length (base_sequence (example_columns ! 0)) - (K example_common - 1))
        (base_sequence (example_columns ! 0))
       \<noteq> take (K example_common - 1) (base_sequence (example_columns ! 1))
   \<and> length (base_sequence (example_columns ! 0)) - 2 \<noteq> K example_common - 1"
  using example_build by (simp add: example_columns_def example_common_def)

subsection \<open>The anchors and alternative sequences of a read\<close>

lemma concat_pairs_nth:
  "i < length xs \<Longrightarrow>
     concat (map (\<lambda>x. [f x, g x]) xs) ! (2 * i) = f (xs ! i)
     \<and> concat (map (\<lambda>x. [f x, g x]) xs) ! (2 * i + 1) = g (xs ! i)"
proof (induction xs arbitrary: i)
  case Nil
  then show ?case by simp
next
  case (Cons x xs)
  show ?case
  proof (cases i)
    case 0
    then show ?thesis by simp
  next
    case (Suc k)
    with Cons.prems have "k < length xs" by simp
    from Cons.IH [OF this] Suc show ?thesis by simp
  qed
qed

lemma alt_sequence_Inr:
  assumes "alt_sequence env sr rc' a b = Inr x"
  shows "\<exists>str. substr (read_sequence sr) (nat (fst (alt_kidx env sr rc' a b)))
                 (snd (alt_kidx env sr rc' a b) - fst (alt_kidx env sr rc' a b) + int (K env))
               = Inr str
             \<and> x = (if rc' then reverse_complement env str else str)"
  using assms by (auto simp: alt_sequence_def split: prod.splits sum.splits)

text \<open>
  C7, amended. In a result of the builder, at every sampled position where the walker gives a
  read a coordinate, the read's two anchors of the column are the events closest to
  the coordinate, which is passed through \<open>flip_k_strand\<close> first when the record is
  reverse; the flag of the template anchor is the reverse flag of the record and the
  flag of the complement anchor is its negation. For a reverse record, the alternative
  sequence that the read gives the column is the \<open>reverse_complement\<close> of the piece
  of the read sequence extracted at the flipped and swapped coordinates.
\<close>

theorem read_anchor_orientation:
  assumes b: "build_input_for_region env records ref_segment start end stride = Inr ret"
    and i: "i < length records"
    and p: "p < length (anchored_columns ret)"
    and d: "read_bases start end stride (fst (records ! i)) ! p \<noteq> - 1"
  shows "anchors (anchored_columns ret ! p) ! (2 * i) =
           \<lparr>event_idx = get_closest_event_to (snd (records ! i))
              (if is_rev (fst (records ! i))
               then flip_k_strand (snd (records ! i))
                      (read_bases start end stride (fst (records ! i)) ! p)
               else read_bases start end stride (fst (records ! i)) ! p) T_IDX,
            rc = is_rev (fst (records ! i))\<rparr>
       \<and> anchors (anchored_columns ret ! p) ! (2 * i + 1) =
           \<lparr>event_idx = get_closest_event_to (snd (records ! i))
              (if is_rev (fst (records ! i))
               then flip_k_strand (snd (records ! i))
                      (read_bases start end stride (fst (records ! i)) ! p)
               else read_bases start end stride (fst (records ! i)) ! p) C_IDX,
            rc = (\<not> is_rev (fst (records ! i)))\<rparr>
       \<and> (is_rev (fst (records ! i)) \<and> p \<noteq> length (anchored_columns ret) - 1 \<longrightarrow>
            (\<exists>str.
               substr (read_sequence (snd (records ! i)))
                 (nat (fst (alt_kidx env (snd (records ! i)) True
                    (read_bases start end stride (fst (records ! i)) ! p)
                    (read_bases start end stride (fst (records ! i)) ! (p + 1)))))
                 (snd (alt_kidx env (snd (records ! i)) True
                    (read_bases start end stride (fst (records ! i)) ! p)
                    (read_bases start end stride (fst (records ! i)) ! (p + 1)))
                  - fst (alt_kidx env (snd (records ! i)) True
                    (read_bases start end stride (fst (records ! i)) ! p)
                    (read_bases start end stride (fst (records ! i)) ! (p + 1)))
                  + int (K env)) = Inr str
               \<and> alt_sequence env (snd (records ! i)) True
                    (read_bases start end stride (fst (records ! i)) ! p)
                    (read_bases start end stride (fst (records ! i)) ! (p + 1))
                  = Inr (reverse_complement env str)
               \<and> reverse_complement env str \<in> set (alt_sequences (anchored_columns ret ! p))))"
proof -
  let ?cols = "anchored_columns ret"
  let ?bam = "fst (records ! i)" and ?sr = "snd (records ! i)"
  let ?rb = "read_bases start end stride ?bam"
  note ch = build_input_for_region_char [OF b]
  from i have mem: "records ! i \<in> set records" by simp
  from ch(3) [OF mem] have len: "length ?rb = length ?cols" by simp
  with p have prb: "p < length ?rb" by simp
  have ral: "read_anchor_list env ?sr (is_rev ?bam) ?rb st ! p
               = event_anchor ?sr (is_rev ?bam) (?rb ! p) st" for st
    using prb d by (simp add: read_anchor_list_def)
  note cp = concat_pairs_nth [OF i,
      of "\<lambda>rs. read_anchor_list env (snd rs) (is_rev (fst rs))
                  (read_bases start end stride (fst rs)) T_IDX ! p"
         "\<lambda>rs. read_anchor_list env (snd rs) (is_rev (fst rs))
                  (read_bases start end stride (fst rs)) C_IDX ! p"]
  from cp have 1: "anchors (?cols ! p) ! (2 * i) = event_anchor ?sr (is_rev ?bam) (?rb ! p) T_IDX"
    unfolding ch(4) [OF p] ral by (rule conjunct1)
  from cp have 2: "anchors (?cols ! p) ! (2 * i + 1) = event_anchor ?sr (is_rev ?bam) (?rb ! p) C_IDX"
    unfolding ch(4) [OF p] ral by (rule conjunct2)
  have 3: "\<exists>str.
               substr (read_sequence ?sr)
                 (nat (fst (alt_kidx env ?sr True (?rb ! p) (?rb ! (p + 1)))))
                 (snd (alt_kidx env ?sr True (?rb ! p) (?rb ! (p + 1)))
                  - fst (alt_kidx env ?sr True (?rb ! p) (?rb ! (p + 1)))
                  + int (K env)) = Inr str
               \<and> alt_sequence env ?sr True (?rb ! p) (?rb ! (p + 1))
                  = Inr (reverse_complement env str)
               \<and> reverse_complement env str \<in> set (alt_sequences (?cols ! p))"
    if rev: "is_rev ?bam" and np: "p \<noteq> length ?cols - 1"
  proof -
    from b obtain rds ras subs where
      l: "load_reads env start end stride records ([], [], []) = Inr (rds, ras, subs)"
      by (rule build_input_for_region_Inr)
    from p np len have "p < length ?rb - 1" by simp
    from load_reads_emits [OF l mem this d]
    have em: "read_emitted env start end stride p (records ! i) \<noteq> []" .
    then obtain x where x: "alt_sequence env ?sr True (?rb ! p) (?rb ! (p + 1)) = Inr x"
      and ex: "read_emitted env start end stride p (records ! i) = [x]"
      using rev by (auto simp: read_emitted_def emitted_def split: if_splits sum.splits)
    from ch(5) [OF p np] have "alt_sequences (?cols ! p)
        = concat (map (read_emitted env start end stride p) records)" by blast
    with mem ex have xin: "x \<in> set (alt_sequences (?cols ! p))" by force
    from alt_sequence_Inr [OF x] x xin show ?thesis by auto
  qed
  from 1 2 3 show ?thesis unfolding event_anchor_def by simp
qed


lemma example_read_bases:
  "read_bases 0 9 2 (fst (example_records ! 0)) = [0, 2, 4, 6, 8]"
  "read_bases 0 9 2 (fst (example_records ! 1)) = [- 1, 0, 2, 4, - 1]"
  by (simp_all add: read_bases_def example_records_def example_walks)

theorem read_anchor_orientation_witness:
  "build_input_for_region example_common example_records ''ACGTACGTAC'' 0 9 2
     = Inr \<lparr>reads = [example_read, example_read], anchored_columns = example_columns\<rparr>
   \<and> is_rev (fst (example_records ! 1))
   \<and> read_bases 0 9 2 (fst (example_records ! 1)) ! 1 = 0
   \<and> anchors (example_columns ! 1) ! (2 * 1) =
        \<lparr>event_idx = get_closest_event_to example_read (flip_k_strand example_read 0) T_IDX,
         rc = True\<rparr>
   \<and> anchors (example_columns ! 1) ! (2 * 1 + 1) =
        \<lparr>event_idx = get_closest_event_to example_read (flip_k_strand example_read 0) C_IDX,
         rc = False\<rparr>
   \<and> alt_sequence example_common example_read True 0 2
        = Inr (reverse_complement example_common ''TACGTAC'')
   \<and> reverse_complement example_common ''TACGTAC'' \<in> set (alt_sequences (example_columns ! 1))"
proof -
  have i: "1 < length example_records" by (simp add: example_records_def)
  have p: "1 < length (anchored_columns
      \<lparr>reads = [example_read, example_read], anchored_columns = example_columns\<rparr>)"
    by (simp add: example_columns_def)
  have d: "read_bases 0 9 2 (fst (example_records ! 1)) ! 1 \<noteq> - 1"
    by (simp only: example_read_bases) simp
  have r: "is_rev (fst (example_records ! 1))" "snd (example_records ! 1) = example_read"
    by (simp_all add: example_records_def)
  have np: "1 \<noteq> length (anchored_columns
      \<lparr>reads = [example_read, example_read], anchored_columns = example_columns\<rparr>) - 1"
    by (simp add: example_columns_def)
  have v: "read_bases 0 9 2 (fst (example_records ! 1)) ! 1 = 0"
    "read_bases 0 9 2 (fst (example_records ! 1)) ! (1 + 1) = 2"
    by (simp_all only: example_read_bases) simp_all
  note c = read_anchor_orientation [OF example_build i p d,
      unfolded HMMRealignmentInput.select_convs v r(2)]
  from c r(1) have 1: "anchors (example_columns ! 1) ! (2 * 1) =
        \<lparr>event_idx = get_closest_event_to example_read (flip_k_strand example_read 0) T_IDX,
         rc = True\<rparr>"
    and 2: "anchors (example_columns ! 1) ! (2 * 1 + 1) =
        \<lparr>event_idx = get_closest_event_to example_read (flip_k_strand example_read 0) C_IDX,
         rc = False\<rparr>"
    by simp_all
  from c r(1) np [unfolded HMMRealignmentInput.select_convs] obtain str where
    s: "alt_sequence example_common example_read True 0 2
          = Inr (reverse_complement example_common str)"
      "reverse_complement example_common str \<in> set (alt_sequences (example_columns ! 1))"
      "substr (read_sequence example_read)
         (nat (fst (alt_kidx example_common example_read True 0 2)))
         (snd (alt_kidx example_common example_read True 0 2)
           - fst (alt_kidx example_common example_read True 0 2) + int (K example_common))
         = Inr str"
    by blast
  from s(3) have "str = ''TACGTAC''"
    by (simp add: alt_kidx_def substr_def example_read_def example_common_def)
  with s(1,2) have 3: "alt_sequence example_common example_read True 0 2
        = Inr (reverse_complement example_common ''TACGTAC'')"
    and 4: "reverse_complement example_common ''TACGTAC'' \<in> set (alt_sequences (example_columns ! 1))"
    by simp_all
  from example_build r(1) v(1) 1 2 3 4 show ?thesis by blast
qed

text \<open>
  At a sampled position where the walker gives a read no coordinate, both anchors of
  the read are the anchor with which the vectors were filled.
\<close>

lemma unset_position_anchors:
  assumes b: "build_input_for_region env records ref_segment start end stride = Inr ret"
    and i: "i < length records"
    and p: "p < length (anchored_columns ret)"
    and d: "read_bases start end stride (fst (records ! i)) ! p = - 1"
  shows "anchors (anchored_columns ret ! p) ! (2 * i) = unset_anchor env"
    and "anchors (anchored_columns ret ! p) ! (2 * i + 1) = unset_anchor env"
proof -
  let ?cols = "anchored_columns ret"
  let ?bam = "fst (records ! i)" and ?sr = "snd (records ! i)"
  let ?rb = "read_bases start end stride ?bam"
  note ch = build_input_for_region_char [OF b]
  from i have mem: "records ! i \<in> set records" by simp
  from ch(3) [OF mem] have len: "length ?rb = length ?cols" by simp
  with p have prb: "p < length ?rb" by simp
  have ral: "read_anchor_list env ?sr (is_rev ?bam) ?rb st ! p = unset_anchor env" for st
    using prb d by (simp add: read_anchor_list_def)
  note cp = concat_pairs_nth [OF i,
      of "\<lambda>rs. read_anchor_list env (snd rs) (is_rev (fst rs))
                  (read_bases start end stride (fst rs)) T_IDX ! p"
         "\<lambda>rs. read_anchor_list env (snd rs) (is_rev (fst rs))
                  (read_bases start end stride (fst rs)) C_IDX ! p"]
  from cp show "anchors (?cols ! p) ! (2 * i) = unset_anchor env"
    unfolding ch(4) [OF p] ral by (rule conjunct1)
  from cp show "anchors (?cols ! p) ! (2 * i + 1) = unset_anchor env"
    unfolding ch(4) [OF p] ral by (rule conjunct2)
qed

text \<open>
  C7 as stated fails at such a position: the two anchors of the read are equal, so
  their flags are not opposite. In the example region the second record is reverse and
  has no coordinate at the sampled position 0; the flag of its template anchor there is
  not its reverse flag.
\<close>

theorem read_anchor_orientation_counterexample:
  "build_input_for_region example_common example_records ''ACGTACGTAC'' 0 9 2
     = Inr \<lparr>reads = [example_read, example_read], anchored_columns = example_columns\<rparr>
   \<and> is_rev (fst (example_records ! 1))
   \<and> read_bases 0 9 2 (fst (example_records ! 1)) ! 0 = - 1
   \<and> anchors (example_columns ! 0) ! (2 * 1) = unset_anchor example_common
   \<and> anchors (example_columns ! 0) ! (2 * 1 + 1) = unset_anchor example_common
   \<and> rc (anchors (example_columns ! 0) ! (2 * 1)) = rc (anchors (example_columns ! 0) ! (2 * 1 + 1))
   \<and> rc (anchors (example_columns ! 0) ! (2 * 1)) \<noteq> is_rev (fst (example_records ! 1))"
proof -
  have i: "1 < length example_records" by (simp add: example_records_def)
  have p: "0 < length (anchored_columns
      \<lparr>reads = [example_read, example_read], anchored_columns = example_columns\<rparr>)"
    by (simp add: example_columns_def)
  have d: "read_bases 0 9 2 (fst (example_records ! 1)) ! 0 = - 1"
    by (simp only: example_read_bases) simp
  have r: "is_rev (fst (example_records ! 1))" by (simp add: example_records_def)
  note u = unset_position_anchors [OF example_build i p d,
      unfolded HMMRealignmentInput.select_convs]
  from u have e: "rc (anchors (example_columns ! 0) ! (2 * 1))
      = rc (anchors (example_columns ! 0) ! (2 * 1 + 1))"
    by simp
  from u(1) r have n: "rc (anchors (example_columns ! 0) ! (2 * 1)) \<noteq> is_rev (fst (example_records ! 1))"
    by (simp add: example_common_def)
  from example_build r d u e n show ?thesis by blast
qed

subsection \<open>The size of the table of alternative sequences\<close>

lemma column_anchors_total:
  "\<forall>r \<in> set ras. p < length (strand_anchors r T_IDX) \<and> p < length (strand_anchors r C_IDX)
    \<Longrightarrow> \<exists>as. column_anchors ras p = Inr as"
  by (induction ras) auto

lemma build_columns_Inl:
  "k < length ais \<Longrightarrow> build_column env ras subs ref_segment stride n (ais ! k) = Inl e
    \<Longrightarrow> \<exists>e'. build_columns env ras subs ref_segment stride n ais = Inl e'"
proof (induction ais arbitrary: k)
  case Nil
  then show ?case by simp
next
  case (Cons ai ais)
  show ?case
  proof (cases k)
    case 0
    with Cons.prems show ?thesis by simp
  next
    case (Suc j)
    with Cons.prems have "j < length ais"
      "build_column env ras subs ref_segment stride n (ais ! j) = Inl e" by simp_all
    from Cons.IH [OF this] show ?thesis by (auto split: sum.splits)
  qed
qed

text \<open>
  C9. After the loop over the records of a region with \<open>n \<ge> 2\<close> sampled positions,
  the table \<^verbatim>\<open>read_substrings\<close> has a row \<open>n - 2\<close> exactly when some read has a
  coordinate at the sampled position \<open>n - 2\<close>. When no read has one, the access
  \<^verbatim>\<open>read_substrings[ai]\<close> of the column \<open>n - 2\<close> is out of range, and the builder has
  no result.
\<close>

theorem read_substrings_table_bound:
  assumes l: "load_reads env start end stride records ([], [], []) = Inr (rds, ras, subs)"
    and ne: "records \<noteq> []"
    and n: "n = length (read_bases start end stride (fst (hd records)))"
    and n2: "2 \<le> n"
  shows "(n - 2 < length subs
            \<longleftrightarrow> (\<exists>rs \<in> set records. read_bases start end stride (fst rs) ! (n - 2) \<noteq> - 1))
       \<and> (\<not> n - 2 < length subs \<longrightarrow>
            (\<forall>b. column_base_sequence env ref_segment stride (n - 2) = Inr b \<longrightarrow>
               build_column env ras subs ref_segment stride n (n - 2)
                 = Inl ReadSubstringsOutOfRange)
            \<and> (\<exists>e. build_input_for_region env records ref_segment start end stride = Inl e))"
proof -
  note ch = load_reads_char [OF l]
  from ch have all2: "list_all2 (anchors_of env start end stride) records ras" by auto
  have lens: "k < length subs \<longleftrightarrow>
      (\<exists>rs \<in> set records. \<exists>i. read_emitted env start end stride i rs \<noteq> [] \<and> k \<le> i)" for k
    using load_reads_char [OF l, of _ k] by simp
  have m: "match_read_to_reference_anchors (fst rs) start end stride
             = Inr (read_bases start end stride (fst rs))" if "rs \<in> set records" for rs
    using list_all2_set1 [OF all2 that] by (auto simp: anchors_of_def)
  have len_all: "length (read_bases start end stride (fst rs)) = n" if "rs \<in> set records" for rs
    using match_read_length [OF m [OF that]] match_read_length [OF m [of "hd records"]] ne n
    by simp
  have 1: "n - 2 < length subs
            \<longleftrightarrow> (\<exists>rs \<in> set records. read_bases start end stride (fst rs) ! (n - 2) \<noteq> - 1)"
  proof
    assume "n - 2 < length subs"
    with lens obtain rs i where rs: "rs \<in> set records"
      and i: "read_emitted env start end stride i rs \<noteq> []" "n - 2 \<le> i"
      by blast
    from read_emitted_iff [OF i(1)] len_all [OF rs] i(2) n2
    have "i = n - 2" "read_bases start end stride (fst rs) ! i \<noteq> - 1" by auto
    with rs show "\<exists>rs \<in> set records. read_bases start end stride (fst rs) ! (n - 2) \<noteq> - 1"
      by blast
  next
    assume "\<exists>rs \<in> set records. read_bases start end stride (fst rs) ! (n - 2) \<noteq> - 1"
    then obtain rs where rs: "rs \<in> set records"
      and d: "read_bases start end stride (fst rs) ! (n - 2) \<noteq> - 1" by blast
    from len_all [OF rs] n2 have "n - 2 < length (read_bases start end stride (fst rs)) - 1"
      by simp
    from load_reads_emits [OF l rs this d] lens [of "n - 2"] rs
    show "n - 2 < length subs" by blast
  qed
  have 2: "(\<forall>b. column_base_sequence env ref_segment stride (n - 2) = Inr b \<longrightarrow>
               build_column env ras subs ref_segment stride n (n - 2)
                 = Inl ReadSubstringsOutOfRange)
            \<and> (\<exists>e. build_input_for_region env records ref_segment start end stride = Inl e)"
    if out: "\<not> n - 2 < length subs"
  proof -
    have ras_len: "length (strand_anchors r st) = n" if "r \<in> set ras" for r st
    proof -
      from all2 that obtain rs where "rs \<in> set records" "anchors_of env start end stride rs r"
        by (metis in_set_conv_nth list_all2_conv_all_nth)
      with len_all show ?thesis by (simp add: anchors_of_def)
    qed
    with n2 have "\<forall>r \<in> set ras. n - 2 < length (strand_anchors r T_IDX)
        \<and> n - 2 < length (strand_anchors r C_IDX)" by simp
    from column_anchors_total [OF this] obtain as where
      as: "column_anchors ras (n - 2) = Inr as" by blast
    from n2 have nl: "n - 2 \<noteq> n - 1" by simp
    have a: "build_column env ras subs ref_segment stride n (n - 2) = Inl ReadSubstringsOutOfRange"
      if "column_base_sequence env ref_segment stride (n - 2) = Inr b" for b
      using that as nl out by (simp add: build_column_def)
    have "\<exists>e. build_column env ras subs ref_segment stride n (n - 2) = Inl e"
      using as nl out by (auto simp: build_column_def split: sum.splits)
    then obtain e where e: "build_column env ras subs ref_segment stride n ([0..<n] ! (n - 2)) = Inl e"
      using n2 by auto
    from all2 ne have rne: "ras \<noteq> []" by auto
    then have hdn: "length (strand_anchors (hd ras) T_IDX) = n" by (simp add: ras_len)
    from n2 have "n - 2 < length [0..<n]" by simp
    from build_columns_Inl [OF this e] obtain e' where
      "build_columns env ras subs ref_segment stride n [0..<n] = Inl e'" by blast
    with l rne hdn have "\<exists>e. build_input_for_region env records ref_segment start end stride = Inl e"
      by (auto simp: build_input_for_region_def)
    with a show ?thesis by blast
  qed
  from 1 2 show ?thesis by blast
qed


lemma example_short_walk:
  "match_read_to_reference_anchors \<lparr>qname = ''read'', pos = 0, is_rev = False, cigar = [0x40]\<rparr> 0 9 2
     = Inr [0, 2, - 1, - 1, - 1]"
  by code_simp

lemma example_short_load:
  "map_sum id (snd \<circ> snd) (load_reads example_common 0 9 2 example_short_records ([], [], []))
     = Inr [''ACGTACG'' # [], ''GT'' # []]"
  by (simp add: load_read_def example_short_walk anchor_step_def
      alt_sequence_def alt_kidx_def substr_def
      example_read_def example_common_def example_short_records_def upt_rec)

lemma example_short_build:
  "build_input_for_region example_common example_short_records ''ACGTACGTAC'' 0 9 2
     = Inl ReadSubstringsOutOfRange"
  by (simp add: build_input_for_region_def load_read_def example_short_walk anchor_step_def
      alt_sequence_def alt_kidx_def substr_def build_column_def column_base_sequence_def
      example_read_def example_common_def example_short_records_def upt_rec)

theorem read_substrings_table_bound_witness:
  "map_sum id (snd \<circ> snd) (load_reads example_common 0 9 2 example_short_records ([], [], []))
     = Inr [''ACGTACG'' # [], ''GT'' # []]
   \<and> read_bases 0 9 2 (fst (hd example_short_records)) = [0, 2, - 1, - 1, - 1]
   \<and> \<not> 5 - 2 < length [''ACGTACG'' # [], ''GT'' # []]
   \<and> \<not> (\<exists>rs \<in> set example_short_records. read_bases 0 9 2 (fst rs) ! (5 - 2) \<noteq> - 1)
   \<and> (\<exists>e. build_input_for_region example_common example_short_records ''ACGTACGTAC'' 0 9 2
          = Inl e)
   \<and> build_input_for_region example_common example_short_records ''ACGTACGTAC'' 0 9 2
        = Inl ReadSubstringsOutOfRange"
proof -
  let ?subs = "[''ACGTACG'' # [], ''GT'' # []]"
  from example_short_load obtain rds ras where
    l: "load_reads example_common 0 9 2 example_short_records ([], [], []) = Inr (rds, ras, ?subs)"
    by (cases "load_reads example_common 0 9 2 example_short_records ([], [], [])") auto
  have ne: "example_short_records \<noteq> []" by (simp add: example_short_records_def)
  have rb: "read_bases 0 9 2 (fst (hd example_short_records)) = [0, 2, - 1, - 1, - 1]"
    by (simp add: read_bases_def example_short_records_def example_short_walk)
  have n: "5 = length (read_bases 0 9 2 (fst (hd example_short_records)))"
    by (simp add: rb)
  have n2: "(2::nat) \<le> 5" by simp
  note c = read_substrings_table_bound [OF l ne n n2, of "''ACGTACGTAC''"]
  have out: "\<not> 5 - 2 < length ?subs" by simp
  from c out
  have "\<not> (\<exists>rs \<in> set example_short_records. read_bases 0 9 2 (fst rs) ! (5 - 2) \<noteq> - 1)"
    by blast
  moreover from c out
  have "\<exists>e. build_input_for_region example_common example_short_records ''ACGTACGTAC'' 0 9 2
          = Inl e"
    by blast
  ultimately show ?thesis using example_short_load rb out example_short_build by blast
qed

subsection \<open>When an alternative sequence is emitted\<close>

lemma column_alt_sequences:
  assumes "build_input_for_region env records ref_segment start end stride = Inr ret"
    and "Suc p < length (anchored_columns ret)"
  shows "alt_sequences (anchored_columns ret ! p)
           = concat (map (read_emitted env start end stride p) records)"
proof -
  from assms(2) have "p < length (anchored_columns ret)" "p \<noteq> length (anchored_columns ret) - 1"
    by simp_all
  from build_input_for_region_char(5) [OF assms(1) this] show ?thesis by blast
qed

lemma read_emitted_length:
  assumes "load_reads env start end stride records st = Inr st'" and "rs \<in> set records"
  shows "length (read_emitted env start end stride p rs)
           = (if p < length (read_bases start end stride (fst rs)) - 1
                 \<and> read_bases start end stride (fst rs) ! p \<noteq> - 1 then 1 else 0)"
proof (cases "p < length (read_bases start end stride (fst rs)) - 1
                 \<and> read_bases start end stride (fst rs) ! p \<noteq> - 1")
  case True
  with load_reads_emits [OF assms, of p] show ?thesis
    by (auto simp: read_emitted_def emitted_def split: sum.splits)
next
  case False
  then show ?thesis by (auto simp: read_emitted_def emitted_def)
qed

text \<open>
  C2. The loop emits the alternative sequence of an interval whenever the coordinate at
  its first position is not the marker, and does not look at the marker of the second
  position (\<open>column_alt_sequences\<close> and \<open>read_emitted_length\<close> above). A read
  with one aligned base at reference position 0, in the region from 0 to 2 with stride
  2, has the coordinates \<open>[0, - 1]\<close>: its coordinate at the second sampled position is
  the marker, and the builder emits the alternative sequence \<open>''ACGT''\<close> for the
  interval all the same, extracted with \<open>- 1\<close> as its end coordinate.
\<close>

theorem alt_sequence_emitted_before_unmapped:
  "match_read_to_reference_anchors \<lparr>qname = ''read'', pos = 0, is_rev = False, cigar = [0x10]\<rparr> 0 2 2
     = Inr [0, - 1]
   \<and> map_sum id (map alt_sequences \<circ> anchored_columns)
       (build_input_for_region example_common
          [(\<lparr>qname = ''read'', pos = 0, is_rev = False, cigar = [0x10]\<rparr>, example_read)]
          ''ACG'' 0 2 2)
     = Inr [[''ACGT''], []]"
proof -
  have w: "match_read_to_reference_anchors
      \<lparr>qname = ''read'', pos = 0, is_rev = False, cigar = [0x10]\<rparr> 0 2 2 = Inr [0, - 1]"
    by code_simp
  then show ?thesis
    by (simp add: build_input_for_region_def load_read_def anchor_step_def
      alt_sequence_def alt_kidx_def substr_def build_column_def column_base_sequence_def
      example_read_def example_common_def upt_rec)
qed

subsection \<open>The clamp of the extraction\<close>

text \<open>
  The coordinates after the two lines of the clamp, and the result of the extraction:
  the start coordinate is bounded from below only, the end coordinate from above only.
\<close>

lemma alt_kidx_eq:
  "alt_kidx env sr do_base_rc start_kidx end_kidx =
     (max 0 (if do_base_rc then flip_k_strand sr end_kidx else start_kidx),
      min (if do_base_rc then flip_k_strand sr start_kidx else end_kidx)
          (int (length (read_sequence sr)) - int (K env)))"
  by (simp add: alt_kidx_def Let_def max_def min_def)

lemma alt_sequence_eq:
  "alt_sequence env sr do_base_rc start_kidx end_kidx =
     (if int (length (read_sequence sr)) < fst (alt_kidx env sr do_base_rc start_kidx end_kidx)
      then Inl SubstrOutOfRange
      else Inr ((if do_base_rc then reverse_complement env else id)
             (if snd (alt_kidx env sr do_base_rc start_kidx end_kidx)
                   - fst (alt_kidx env sr do_base_rc start_kidx end_kidx) + int (K env) < 0
              then drop (nat (fst (alt_kidx env sr do_base_rc start_kidx end_kidx)))
                     (read_sequence sr)
              else take (nat (snd (alt_kidx env sr do_base_rc start_kidx end_kidx)
                           - fst (alt_kidx env sr do_base_rc start_kidx end_kidx) + int (K env)))
                     (drop (nat (fst (alt_kidx env sr do_base_rc start_kidx end_kidx)))
                        (read_sequence sr)))))"
proof -
  obtain s e where k: "alt_kidx env sr do_base_rc start_kidx end_kidx = (s, e)"
    by (cases "alt_kidx env sr do_base_rc start_kidx end_kidx")
  have "0 \<le> fst (alt_kidx env sr do_base_rc start_kidx end_kidx)"
    by (simp add: alt_kidx_eq)
  then have "0 \<le> s" by (simp add: k)
  then have "nat s > length (read_sequence sr) \<longleftrightarrow> int (length (read_sequence sr)) < s"
    by linarith
  then show ?thesis
    unfolding alt_sequence_def k fst_conv snd_conv by (simp add: substr_def)
qed

text \<open>
  C3. The two lines under the comment "clamp values within range" do not bring both
  coordinates into the range from 0 to the length of the read sequence minus \<open>K\<close>. For
  the forward record with ten aligned bases from reference position 0, in the region
  from 0 to 9 with stride 2, the coordinates at the sampled positions 3 and 4 are 6 and
  8. The read sequence has length 10 and \<open>K = 5\<close>, so the range ends at 5: the start
  coordinate stays 6, the end coordinate becomes 5, and the alternative sequence of the
  column is \<open>''GTAC''\<close>, four bases, fewer than \<open>K\<close>.
\<close>

theorem alt_kidx_start_above_range:
  "match_read_to_reference_anchors
     \<lparr>qname = ''read'', pos = 0, is_rev = False, cigar = [0xA0]\<rparr> 0 9 2
     = Inr [0, 2, 4, 6, 8]
   \<and> alt_kidx example_common example_read False 6 8 = (6, 5)
   \<and> \<not> fst (alt_kidx example_common example_read False 6 8)
         \<le> int (length (read_sequence example_read)) - int (K example_common)
   \<and> alt_sequence example_common example_read False 6 8 = Inr ''GTAC''
   \<and> map_sum id (map alt_sequences \<circ> anchored_columns)
       (build_input_for_region example_common example_forward_records ''ACGTACGTAC'' 0 9 2)
     = Inr [[''ACGTACG''], [''GTACGTA''], [''ACGTAC''], [''GTAC''], []]"
proof -
  have w: "match_read_to_reference_anchors
     \<lparr>qname = ''read'', pos = 0, is_rev = False, cigar = [0xA0]\<rparr> 0 9 2
     = Inr [0, 2, 4, 6, 8]"
    by code_simp
  then show ?thesis
    by (simp add: build_input_for_region_def load_read_def anchor_step_def
      alt_sequence_def alt_kidx_def substr_def build_column_def column_base_sequence_def
      example_read_def example_common_def example_forward_records_def upt_rec)
qed

end
